theory Spec2Isabelle
  imports Main "HOL-Library.Sublist" "HOL-Library.List_Lexorder"
begin

section \<open>Strings\<close>

text \<open>
  A Python \<^verbatim>\<open>str\<close> is a sequence of Unicode code points, so a string is a list of
  natural numbers and \<open>length\<close> counts what Python's \<^verbatim>\<open>len\<close> counts. \<open>ustr\<close> reads
  an ASCII literal of the source.
\<close>

type_synonym ustring = "nat list"

definition ustr :: "string \<Rightarrow> ustring" where
  "ustr s = map of_char s"

text \<open>
  The script calls into Python's Unicode database (\<^verbatim>\<open>unicodedata\<close>, \<^verbatim>\<open>str.strip\<close>,
  \<^verbatim>\<open>str.lower\<close>, the regular expression class \<^verbatim>\<open>\s\<close>). The tables are not code of
  the repository, so the model takes them as a parameter:
  \<^item> \<open>decomposition c\<close>: the full compatibility decomposition of the code point \<open>c\<close>
    (the singleton \<open>[c]\<close> where it has none);
  \<^item> \<open>combining c\<close>: the canonical combining class, \<^verbatim>\<open>unicodedata.combining\<close>;
  \<^item> \<open>isspace c\<close>: the white space test shared by \<^verbatim>\<open>str.strip\<close> and \<^verbatim>\<open>\s\<close>;
  \<^item> \<open>tolower_full c\<close>: the full lower-case mapping of \<open>c\<close>;
  \<^item> \<open>cased\<close>, \<open>case_ignorable\<close>: the two properties that \<^verbatim>\<open>str.lower\<close> reads
    around a capital sigma.
\<close>

record unicode_db =
  decomposition :: "nat \<Rightarrow> nat list"
  combining :: "nat \<Rightarrow> nat"
  isspace :: "nat \<Rightarrow> bool"
  tolower_full :: "nat \<Rightarrow> nat list"
  cased :: "nat \<Rightarrow> bool"
  case_ignorable :: "nat \<Rightarrow> bool"

text \<open>
  An excerpt of the Unicode tables for concrete evaluation. It agrees with Unicode on ASCII
  and on the code points it lists: U+00E9 (e with acute) decomposes into e and U+0301, a
  combining mark of class 230; U+FF0F (fullwidth solidus) decomposes into the solidus;
  U+212A (Kelvin sign) decomposes into K and lower-cases to k. The ASCII white space of
  Python is 9 to 13, 28 to 31 and 32.
\<close>

definition ascii_lower :: "nat \<Rightarrow> nat" where
  "ascii_lower c = (if 65 \<le> c \<and> c \<le> 90 then c + 32 else c)"

definition ascii_space :: "nat \<Rightarrow> bool" where
  "ascii_space c = ((9 \<le> c \<and> c \<le> 13) \<or> (28 \<le> c \<and> c \<le> 32))"

definition ucd_excerpt :: unicode_db where
  "ucd_excerpt =
     \<lparr> decomposition = (\<lambda>c. if c = 0xE9 then [0x65, 0x301]
                               else if c = 0xFF0F then [0x2F]
                               else if c = 0x212A then [0x4B]
                               else [c]),
       combining = (\<lambda>c. if c = 0x301 then 230 else 0),
       isspace = ascii_space,
       tolower_full = (\<lambda>c. if c = 0x212A then [0x6B] else [ascii_lower c]),
       cased = (\<lambda>c. (65 \<le> c \<and> c \<le> 90) \<or> (97 \<le> c \<and> c \<le> 122) \<or> c = 0x212A),
       case_ignorable = (\<lambda>c. c = 0x27 \<or> c = 0x2E \<or> c = 0x3A \<or> c = 0x5E \<or> c = 0x60 \<or>
                               c = 0x301) \<rparr>"

text \<open>What some properties below need from the tables, on ASCII only: the letters A to Z
  lower-case to a to z and every other ASCII code point to itself, and the ASCII white
  space is as listed above.\<close>

definition ascii_tables :: "unicode_db \<Rightarrow> bool" where
  "ascii_tables db =
     (\<forall>c<128. tolower_full db c = [ascii_lower c] \<and> isspace db c = ascii_space c)"


subsection \<open>\<^verbatim>\<open>str.strip()\<close> and \<^verbatim>\<open>re.sub(r"\s+", " ", s)\<close>\<close>

definition py_strip :: "unicode_db \<Rightarrow> ustring \<Rightarrow> ustring" where
  "py_strip db s = rev (dropWhile (isspace db) (rev (dropWhile (isspace db) s)))"

text \<open>Every maximal run of white space becomes one space (code point 32).\<close>

function sub_ws :: "unicode_db \<Rightarrow> ustring \<Rightarrow> ustring" where
  "sub_ws db [] = []"
| "sub_ws db (c # cs) =
     (if isspace db c then 32 # sub_ws db (dropWhile (isspace db) cs)
      else c # sub_ws db cs)"
  by pat_completeness auto
termination
  by (relation "measure (\<lambda>(db, s). length s)")
     (auto simp: length_dropWhile_le less_Suc_eq_le)

subsection \<open>\<^verbatim>\<open>str.lower()\<close>\<close>

text \<open>
  \<^verbatim>\<open>str.lower\<close> replaces every code point by its full lower-case mapping, except the
  capital sigma U+03A3, which becomes the final sigma U+03C2 when a cased letter stands
  before it (skipping case-ignorable code points) and none stands after it, and the small
  sigma U+03C3 otherwise. \<open>rbefore\<close> is the text before the code point, nearest first.
\<close>

definition final_sigma :: "unicode_db \<Rightarrow> ustring \<Rightarrow> ustring \<Rightarrow> bool" where
  "final_sigma db rbefore after =
     ((case dropWhile (case_ignorable db) rbefore of [] \<Rightarrow> False | c # _ \<Rightarrow> cased db c) \<and>
      (case dropWhile (case_ignorable db) after of [] \<Rightarrow> True | c # _ \<Rightarrow> \<not> cased db c))"

definition lower_one :: "unicode_db \<Rightarrow> ustring \<Rightarrow> ustring \<Rightarrow> nat \<Rightarrow> ustring" where
  "lower_one db rbefore after c =
     (if c = 0x3A3 then [if final_sigma db rbefore after then 0x3C2 else 0x3C3]
      else tolower_full db c)"

fun lower_from :: "unicode_db \<Rightarrow> ustring \<Rightarrow> ustring \<Rightarrow> ustring" where
  "lower_from db rbefore [] = []"
| "lower_from db rbefore (c # cs) = lower_one db rbefore cs c @ lower_from db (c # rbefore) cs"

definition str_lower :: "unicode_db \<Rightarrow> ustring \<Rightarrow> ustring" where
  "str_lower db s = lower_from db [] s"

subsection \<open>\<^verbatim>\<open>str.split("/")\<close>\<close>

text \<open>Splitting at a separator never returns the empty list: the empty string gives
  one empty part.\<close>

fun split_on :: "nat \<Rightarrow> ustring \<Rightarrow> ustring list" where
  "split_on sep [] = [[]]"
| "split_on sep (c # cs) =
     (if c = sep then [] # split_on sep cs
      else (c # hd (split_on sep cs)) # tl (split_on sep cs))"

subsection \<open>\<^verbatim>\<open>re.search\<close>\<close>

text \<open>
  The deny-list uses literals, negated character classes and one star. A pattern is a
  list of items, an item is an atom or a starred atom, and \<open>re_search\<close> is true when the
  pattern matches at some position, which is all the validator reads of the match object.
\<close>

datatype atom = Lit nat | NotIn "(nat \<times> nat) list"

datatype item = One atom | Many atom

definition in_class :: "(nat \<times> nat) list \<Rightarrow> nat \<Rightarrow> bool" where
  "in_class rs c = list_ex (\<lambda>(lo, hi). lo \<le> c \<and> c \<le> hi) rs"

fun atom_ok :: "atom \<Rightarrow> nat \<Rightarrow> bool" where
  "atom_ok (Lit a) c = (c = a)"
| "atom_ok (NotIn rs) c = (\<not> in_class rs c)"

fun match_here :: "item list \<Rightarrow> ustring \<Rightarrow> bool" where
  "match_here [] s = True"
| "match_here (One a # r) [] = False"
| "match_here (One a # r) (c # cs) = (atom_ok a c \<and> match_here r cs)"
| "match_here (Many a # r) [] = match_here r []"
| "match_here (Many a # r) (c # cs) =
     (match_here r (c # cs) \<or> (atom_ok a c \<and> match_here (Many a # r) cs))"

fun re_search :: "item list \<Rightarrow> ustring \<Rightarrow> bool" where
  "re_search p [] = match_here p []"
| "re_search p (c # cs) = (match_here p (c # cs) \<or> re_search p cs)"

definition lit :: "string \<Rightarrow> item list" where
  "lit s = map (\<lambda>c. One (Lit (of_char c))) s"

section \<open>The path validator\<close>

text \<open>
  \<^verbatim>\<open>
  FORBIDDEN_PATTERNS = [
      r"postvak in[^/]*[^/]",   # e.g. "Postvak In Something" without slash
      r"\.\.\.",                # prevent weird "..." names
      r"[^a-zA-Z0-9/ \-]",      # block strange symbols (keep it clean)
      r"postvak in opr",        # specific bad case
  ]
  \<close>
\<close>

definition allowed_class :: "(nat \<times> nat) list" where
  "allowed_class = [(97, 122), (65, 90), (48, 57), (47, 47), (32, 32), (45, 45)]"

definition root_like :: "item list" where
  "root_like = lit ''postvak in'' @ [Many (NotIn [(47, 47)]), One (NotIn [(47, 47)])]"

definition ellipsis :: "item list" where
  "ellipsis = lit ''...''"

definition strange_symbol :: "item list" where
  "strange_symbol = [One (NotIn allowed_class)]"

definition FORBIDDEN_PATTERNS :: "item list list" where
  "FORBIDDEN_PATTERNS = [root_like, ellipsis, strange_symbol, lit ''postvak in opr'']"

text \<open>
  \<^verbatim>\<open>
  def clean_folder_path(folder_path: str) -> str:
      clean_path = folder_path.strip()
      clean_path = re.sub(r"\s+", " ", clean_path)
      if not clean_path.lower().startswith("postvak in/"):
          clean_path = f"Postvak In/{clean_path}"
      if any(re.search(p, clean_path.lower()) for p in FORBIDDEN_PATTERNS):
          clean_path = "Postvak In/Unsorted"
      return clean_path
  \<close>
\<close>

definition add_root :: "unicode_db \<Rightarrow> ustring \<Rightarrow> ustring" where
  "add_root db clean_path =
     (if \<not> prefix (ustr ''postvak in/'') (str_lower db clean_path)
      then ustr ''Postvak In/'' @ clean_path else clean_path)"

definition clean_folder_path :: "unicode_db \<Rightarrow> ustring \<Rightarrow> ustring" where
  "clean_folder_path db folder_path =
     (let clean_path = py_strip db folder_path;
          clean_path = sub_ws db clean_path;
          clean_path = add_root db clean_path
      in if list_ex (\<lambda>p. re_search p (str_lower db clean_path)) FORBIDDEN_PATTERNS
         then ustr ''Postvak In/Unsorted'' else clean_path)"

section \<open>The path normalizer\<close>

text \<open>
  \<^verbatim>\<open>
  def normalize_name(name: str) -> str:
      nfkd = unicodedata.normalize("NFKD", name)
      return "".join(c for c in nfkd if not unicodedata.combining(c)).strip().lower()
  \<close>
  The form NFKD replaces every code point by its full compatibility decomposition and
  then puts every maximal run of combining marks (class other than 0) into the order of
  their classes, by a stable sort.
\<close>

function canonical_order :: "unicode_db \<Rightarrow> ustring \<Rightarrow> ustring" where
  "canonical_order db [] = []"
| "canonical_order db (c # cs) =
     (if combining db c = 0 then c # canonical_order db cs
      else sort_key (combining db) (c # takeWhile (\<lambda>x. combining db x \<noteq> 0) cs) @
           canonical_order db (dropWhile (\<lambda>x. combining db x \<noteq> 0) cs))"
  by pat_completeness auto
termination
  by (relation "measure (\<lambda>(db, s). length s)")
     (auto simp: length_dropWhile_le less_Suc_eq_le)

definition NFKD :: "unicode_db \<Rightarrow> ustring \<Rightarrow> ustring" where
  "NFKD db name = canonical_order db (concat (map (decomposition db) name))"

definition normalize_name :: "unicode_db \<Rightarrow> ustring \<Rightarrow> ustring" where
  "normalize_name db name =
     (let nfkd = NFKD db name
      in str_lower db (py_strip db (filter (\<lambda>c. combining db c = 0) nfkd)))"

text \<open>A property of the Unicode tables: lower-casing brings no combining mark back. The
  two small sigmas are no marks, and a code point that stands in a decomposition and is no
  mark has no mark in its lower-case mapping. (The one code point with a mark in its
  lower-case mapping, U+0130, stands in no decomposition: it has one of its own.)\<close>

definition marks_stay_out :: "unicode_db \<Rightarrow> bool" where
  "marks_stay_out db =
     (combining db 0x3C2 = 0 \<and> combining db 0x3C3 = 0 \<and>
      (\<forall>c d e. d \<in> set (decomposition db c) \<longrightarrow> combining db d = 0 \<longrightarrow>
          e \<in> set (tolower_full db d) \<longrightarrow> combining db e = 0))"

section \<open>The folder tree and the folder cache\<close>

text \<open>
  An Outlook folder has a name, a default item type (0 for mail) and the collection of its
  subfolders, in the order in which the collection enumerates them. A folder of the tree is
  identified by its position: the list of child indices that leads to it from the root.
  \<^verbatim>\<open>known_folders\<close>, the global dictionary from normalized path to real path, is passed
  in and returned.
\<close>

datatype folder = Folder (Name: ustring) (DefaultItemType: nat) (Folders: "folder list")

type_synonym cache = "ustring \<rightharpoonup> ustring"

type_synonym node = "nat list"

text \<open>
  \<^verbatim>\<open>
  def build_folder_cache(root, base="Postvak In"):
      for f in root.Folders:
          path = f"{base}/{f.Name}"
          known_folders[normalize_name(path)] = path
          build_folder_cache(f, path)
  \<close>
  \<open>build_children\<close> is the loop over the rest of \<^verbatim>\<open>root.Folders\<close>.
\<close>

fun build_folder_cache :: "unicode_db \<Rightarrow> folder \<Rightarrow> ustring \<Rightarrow> cache \<Rightarrow> cache"
  and build_children :: "unicode_db \<Rightarrow> folder list \<Rightarrow> ustring \<Rightarrow> cache \<Rightarrow> cache" where
  "build_folder_cache db (Folder n t fs) base known_folders =
     build_children db fs base known_folders"
| "build_children db [] base known_folders = known_folders"
| "build_children db (f # fs) base known_folders =
     (let path = base @ ustr ''/'' @ Name f;
          known_folders = known_folders(normalize_name db path \<mapsto> path);
          known_folders = build_folder_cache db f path known_folders
      in build_children db fs base known_folders)"

text \<open>The real paths of the folders below a root, each formed from the chain of names
  that leads to the folder, in the order of the traversal.\<close>

fun folder_paths :: "folder \<Rightarrow> ustring \<Rightarrow> ustring list"
  and children_paths :: "folder list \<Rightarrow> ustring \<Rightarrow> ustring list" where
  "folder_paths (Folder n t fs) base = children_paths fs base"
| "children_paths [] base = []"
| "children_paths (f # fs) base =
     (base @ ustr ''/'' @ Name f) # folder_paths f (base @ ustr ''/'' @ Name f) @
     children_paths fs base"

text \<open>The invariant of the cache: every entry's key is the normalized form of its
  value.\<close>

definition cache_consistent :: "unicode_db \<Rightarrow> cache \<Rightarrow> bool" where
  "cache_consistent db known_folders =
     (\<forall>k v. known_folders k = Some v \<longrightarrow> k = normalize_name db v)"

text \<open>The real path of the folder at a position: the base path of the root followed by
  the names on the way down. The position \<open>[]\<close> is the root itself.\<close>

fun node_path :: "folder \<Rightarrow> ustring \<Rightarrow> node \<Rightarrow> ustring option" where
  "node_path folder base [] = Some base"
| "node_path folder base (i # n) =
     (if i < length (Folders folder)
      then node_path (Folders folder ! i) (base @ ustr ''/'' @ Name (Folders folder ! i)) n
      else None)"

text \<open>The cache after the entries of a list of real paths have been written in order, as
  \<^verbatim>\<open>known_folders[normalize_name(path)] = path\<close> writes them.\<close>

definition record_paths :: "unicode_db \<Rightarrow> ustring list \<Rightarrow> cache \<Rightarrow> cache" where
  "record_paths db ps known_folders =
     foldl (\<lambda>k p. k(normalize_name db p \<mapsto> p)) known_folders ps"

section \<open>The folder resolver\<close>

text \<open>\<^verbatim>\<open>next((f for f in folder.Folders if f.Name == part), None)\<close>: the index of the
  first subfolder of that exact name.\<close>

fun find_child :: "ustring \<Rightarrow> folder list \<Rightarrow> nat option" where
  "find_child part [] = None"
| "find_child part (f # fs) =
     (if Name f = part then Some 0 else map_option Suc (find_child part fs))"

text \<open>
  \<^verbatim>\<open>
      for part in parts[1:]:
          subfolder = next((f for f in folder.Folders if f.Name == part), None)
          if not subfolder:
              if CREATE_NEW_FOLDERS:
                  subfolder = folder.Folders.Add(part)
              else:
                  return next((f for f in root_folder.Folders if f.Name == "Unsorted"), root_folder)
          folder = subfolder
          real_path += "/" + part
          known_folders[normalize_name(real_path)] = real_path
      return folder
  \<close>
  \<open>walk\<close> is this loop from \<^verbatim>\<open>folder\<close> on. It returns the position of the folder reached,
  relative to \<^verbatim>\<open>folder\<close>, or \<open>None\<close> when the loop left through the early return;
  \<^verbatim>\<open>folder\<close> as the loop leaves it; and the cache. A folder object counts as true in
  \<^verbatim>\<open>if not subfolder\<close>, so that branch is the branch of \<open>None\<close>. \<^verbatim>\<open>Folders.Add\<close> is taken
  to add an empty folder of its parent's item type at the end of the collection; the
  name it is given is found nowhere among the subfolders, so the first match of every name
  is what it was, wherever the collection puts the new folder.
\<close>

fun walk :: "unicode_db \<Rightarrow> bool \<Rightarrow> folder \<Rightarrow> ustring list \<Rightarrow> ustring \<Rightarrow> cache \<Rightarrow>
    node option \<times> folder \<times> cache" where
  "walk db CREATE_NEW_FOLDERS folder [] real_path known_folders =
     (Some [], folder, known_folders)"
| "walk db CREATE_NEW_FOLDERS folder (part # parts) real_path known_folders =
     (case find_child part (Folders folder) of
        None \<Rightarrow>
          if CREATE_NEW_FOLDERS then
            let i = length (Folders folder);
                subfolder = Folder part (DefaultItemType folder) [];
                real_path = real_path @ ustr ''/'' @ part;
                known_folders = known_folders(normalize_name db real_path \<mapsto> real_path);
                (r, subfolder, known_folders) =
                   walk db CREATE_NEW_FOLDERS subfolder parts real_path known_folders
            in (map_option ((#) i) r,
                Folder (Name folder) (DefaultItemType folder) (Folders folder @ [subfolder]),
                known_folders)
          else (None, folder, known_folders)
      | Some i \<Rightarrow>
          let real_path = real_path @ ustr ''/'' @ part;
              known_folders = known_folders(normalize_name db real_path \<mapsto> real_path);
              (r, subfolder, known_folders) =
                 walk db CREATE_NEW_FOLDERS (Folders folder ! i) parts real_path known_folders
          in (map_option ((#) i) r,
              Folder (Name folder) (DefaultItemType folder) ((Folders folder)[i := subfolder]),
              known_folders))"

text \<open>
  \<^verbatim>\<open>
  def get_or_create_folder(root_folder, folder_path: str):
      norm = normalize_name(folder_path)
      if norm in known_folders:
          folder_path = known_folders[norm]
      parts = folder_path.split("/")
      folder = root_folder
      real_path = parts[0] if parts else "Postvak In"
      for part in parts[1:]: ...
  \<close>
  The result is the folder returned, the tree and the cache.
\<close>

definition cached_path :: "unicode_db \<Rightarrow> cache \<Rightarrow> ustring \<Rightarrow> ustring" where
  "cached_path db known_folders folder_path =
     (let norm = normalize_name db folder_path
      in case known_folders norm of Some p \<Rightarrow> p | None \<Rightarrow> folder_path)"

definition unsorted_or_root :: "folder \<Rightarrow> node" where
  "unsorted_or_root root_folder =
     (case find_child (ustr ''Unsorted'') (Folders root_folder) of
        Some i \<Rightarrow> [i] | None \<Rightarrow> [])"

definition get_or_create_folder ::
    "unicode_db \<Rightarrow> bool \<Rightarrow> folder \<Rightarrow> ustring \<Rightarrow> cache \<Rightarrow> node \<times> folder \<times> cache" where
  "get_or_create_folder db CREATE_NEW_FOLDERS root_folder folder_path known_folders =
     (let folder_path = cached_path db known_folders folder_path;
          parts = split_on 47 folder_path;
          real_path = (case parts of [] \<Rightarrow> ustr ''Postvak In'' | p # _ \<Rightarrow> p)
      in case walk db CREATE_NEW_FOLDERS root_folder (drop 1 parts) real_path known_folders of
           (Some folder, root', known') \<Rightarrow> (folder, root', known')
         | (None, root', known') \<Rightarrow> (unsorted_or_root root_folder, root', known'))"

text \<open>The walk as the claims describe it, reading the tree only: the position reached
  by exact first-match descent, or \<open>None\<close> at the first segment that no subfolder is named
  after.\<close>

fun descend :: "folder \<Rightarrow> ustring list \<Rightarrow> node option" where
  "descend folder [] = Some []"
| "descend folder (part # parts) =
     (case find_child part (Folders folder) of
        None \<Rightarrow> None
      | Some i \<Rightarrow> map_option ((#) i) (descend (Folders folder ! i) parts))"

text \<open>Three folder trees for concrete evaluation: an inbox with no subfolder, an inbox
  with the subfolders \<^verbatim>\<open>Work\<close> and \<^verbatim>\<open>Unsorted\<close>, and an inbox with two subfolders whose
  names differ in an accent only.\<close>

definition empty_inbox :: folder where
  "empty_inbox = Folder (ustr ''Postvak In'') 0 []"

definition inbox :: folder where
  "inbox = Folder (ustr ''Postvak In'') 0
     [Folder (ustr ''Work'') 0 [], Folder (ustr ''Unsorted'') 0 []]"

definition cafes :: folder where
  "cafes = Folder (ustr ''Postvak In'') 0
     [Folder (ustr ''Cafe'') 0 [], Folder (ustr ''Caf'' @ [0xE9]) 0 []]"

text \<open>The caches that a run can hold: \<^verbatim>\<open>known_folders\<close> starts empty, and only
  \<^verbatim>\<open>build_folder_cache\<close> and \<^verbatim>\<open>get_or_create_folder\<close> write to it.\<close>

inductive reachable_cache :: "unicode_db \<Rightarrow> cache \<Rightarrow> bool" for db :: unicode_db where
  start: "reachable_cache db Map.empty"
| rebuild: "reachable_cache db known_folders \<Longrightarrow>
     reachable_cache db (build_folder_cache db root_folder base known_folders)"
| resolve: "reachable_cache db known_folders \<Longrightarrow>
     reachable_cache db
       (snd (snd (get_or_create_folder db CREATE_NEW_FOLDERS root_folder folder_path known_folders)))"

section \<open>The classification call\<close>

text \<open>
  \<^verbatim>\<open>
      def classify_email(subject: str, body: str, sender_name: str,
                         sender_email: str, to: str, cc: str, attachments: list,
                         received_date: Optional[str] = None) -> str:
          attachments_info = ", ".join(attachments) if attachments else "None"
          existing_folders_list = "\n".join(sorted(set(known_folders.values())))
          metadata = []
          if received_date:
              metadata.append(f"Ontvangen datum: {received_date}")
          metadata.append(f"Aantal bijlagen: {len(attachments)}")
          if attachments:
              metadata.append(f"Bijlagen namen/types: {attachments_info}")
          metadata_info = "\n".join(metadata)
          prompt = (
              f"Je bent een e-mail sorteerassistent. {PERSONAL_DETAILS}\n"
              f"{EXAMPLE_PROMPT.format(existing_folders_list=existing_folders_list)}"
              f"\nE-mail details:\n"
              f"Onderwerp: {subject}\n"
              f"Afzender: {sender_name} <{sender_email}>\n"
              f"Aan: {to}\n"
              f"CC: {cc}\n"
              f"{extract_useful_metadata(metadata)}\n"
              f"Inhoud: {body[:1000]}\n"
              f"\nFolder:\nGeef alleen het folderpad terug, zonder extra uitleg.\n"
          )
          response = requests.post(LMSTUDIO_URL, json={
              "model": MODEL_ID, "prompt": prompt, "max_tokens": 50 })
          if response.status_code == 200:
              result = response.json()
              folder = result["choices"][0]["text"].strip()
              return folder if folder else "Postvak In/Unsorted"
          else:
              raise RuntimeError(f"LLM API error {response.status_code}: {response.text}")
  \<close>
  An exception is a value of the type \<open>error\<close>, and a computation that can raise returns
  \<open>error + 'a\<close>, with \<open>Inl\<close> the exception.
\<close>

datatype json = JNull | JBool bool | JInt int | JFloat ustring | JStr ustring
  | JList "json list" | JDict "(ustring \<times> json) list"



subsection \<open>Building the prompt\<close>














subsection \<open>The request and the reply\<close>


















section \<open>Properties of the validator\<close>

lemma dropWhile_keeps: "c \<in> set xs \<Longrightarrow> \<not> P c \<Longrightarrow> c \<in> set (dropWhile P xs)"
  by (induction xs) auto

lemma strip_keeps: "c \<in> set s \<Longrightarrow> \<not> isspace db c \<Longrightarrow> c \<in> set (py_strip db s)"
  by (simp add: py_strip_def dropWhile_keeps)

lemma sub_ws_keeps: "c \<in> set s \<Longrightarrow> \<not> isspace db c \<Longrightarrow> c \<in> set (sub_ws db s)"
proof (induction db s rule: sub_ws.induct)
  case (1 db)
  then show ?case by simp
next
  case (2 db x cs)
  show ?case
  proof (cases "isspace db x")
    case True
    then have "c \<noteq> x" using 2(4) by auto
    then have "c \<in> set cs" using 2(3) by simp
    then have "c \<in> set (dropWhile (isspace db) cs)" using 2(4) by (rule dropWhile_keeps)
    then show ?thesis using True 2(1) 2(4) by simp
  next
    case False
    then show ?thesis using 2 by auto
  qed
qed

lemma strange_symbol_iff:
  "re_search strange_symbol s \<longleftrightarrow> (\<exists>d\<in>set s. \<not> in_class allowed_class d)"
  by (induction s) (auto simp: strange_symbol_def)

lemma lower_one_bad:
  assumes "d \<in> set (str_lower db [c])" "\<not> in_class allowed_class d"
  shows "\<exists>e\<in>set (lower_one db rb af c). \<not> in_class allowed_class e"
proof (cases "c = 0x3A3")
  case True
  then show ?thesis by (simp add: lower_one_def in_class_def allowed_class_def)
next
  case False
  then show ?thesis using assms by (auto simp: lower_one_def str_lower_def)
qed

lemma lower_from_bad:
  assumes "c \<in> set s" "d \<in> set (str_lower db [c])" "\<not> in_class allowed_class d"
  shows "\<exists>e\<in>set (lower_from db rb s). \<not> in_class allowed_class e"
  using assms(1)
proof (induction s arbitrary: rb)
  case Nil
  then show ?case by simp
next
  case (Cons x xs)
  show ?case
  proof (cases "c = x")
    case True
    then show ?thesis using lower_one_bad [OF assms(2,3), of rb xs] by auto
  next
    case False
    then have "c \<in> set xs" using Cons.prems by simp
    from Cons.IH [OF this, of "x # rb"] show ?thesis by auto
  qed
qed

lemma fallback_if_strange:
  assumes "\<exists>d\<in>set (str_lower db (add_root db (sub_ws db (py_strip db p)))).
             \<not> in_class allowed_class d"
  shows "clean_folder_path db p = ustr ''Postvak In/Unsorted''"
  using assms
  by (simp add: clean_folder_path_def FORBIDDEN_PATTERNS_def strange_symbol_iff)

lemmas validator_eval =
  clean_folder_path_def py_strip_def add_root_def str_lower_def lower_one_def
  ucd_excerpt_def ascii_space_def ascii_lower_def ustr_def FORBIDDEN_PATTERNS_def
  root_like_def ellipsis_def strange_symbol_def lit_def in_class_def allowed_class_def

text \<open>
  Claim C2, as the code has it. The validator tests the path after it has trimmed it and
  replaced every run of white space by one space, and it tests the lower-cased path. So
  the fallback path is returned for every input path that contains a code point which is
  not white space and whose lower-case form has a code point outside the class
  \<^verbatim>\<open>[A-Za-z0-9/ -]\<close>.
\<close>

theorem clean_folder_path_rejects:
  assumes "c \<in> set folder_path" and "\<not> isspace db c"
    and "\<exists>d\<in>set (str_lower db [c]). \<not> in_class allowed_class d"
  shows "clean_folder_path db folder_path = ustr ''Postvak In/Unsorted''"
proof -
  from assms(3) obtain d where d: "d \<in> set (str_lower db [c])" "\<not> in_class allowed_class d"
    by blast
  have "c \<in> set (sub_ws db (py_strip db folder_path))"
    using assms(1,2) by (simp add: strip_keeps sub_ws_keeps)
  then have "c \<in> set (add_root db (sub_ws db (py_strip db folder_path)))"
    by (simp add: add_root_def)
  from lower_from_bad [OF this d, of "[]"] show ?thesis
    by (intro fallback_if_strange) (simp add: str_lower_def)
qed

text \<open>The theorem at the path \<^verbatim>\<open>Work!\<close>, whose exclamation mark (33) is outside the
  class.\<close>

theorem clean_folder_path_rejects_witness:
  "33 \<in> set (ustr ''Work!'') \<and> \<not> isspace ucd_excerpt 33 \<and>
   (\<exists>d\<in>set (str_lower ucd_excerpt [33]). \<not> in_class allowed_class d) \<and>
   clean_folder_path ucd_excerpt (ustr ''Work!'') = ustr ''Postvak In/Unsorted''"
proof -
  have a: "33 \<in> set (ustr ''Work!'')" by (simp add: ustr_def)
  have b: "\<not> isspace ucd_excerpt 33" by (simp add: ucd_excerpt_def ascii_space_def)
  have c: "\<exists>d\<in>set (str_lower ucd_excerpt [33]). \<not> in_class allowed_class d"
    by (simp add: validator_eval)
  from clean_folder_path_rejects [OF a b c] a b c show ?thesis by blast
qed

text \<open>Claim C2 as stated fails: the tab (9) in the path \<^verbatim>\<open>A<tab>B\<close> is outside the
  class, and the validator returns \<^verbatim>\<open>Postvak In/A B\<close>.\<close>

theorem clean_folder_path_tab_counterexample:
  "9 \<in> set [65, 9, 66] \<and> \<not> in_class allowed_class 9 \<and>
   clean_folder_path ucd_excerpt [65, 9, 66] = ustr ''Postvak In/A B'' \<and>
   ustr ''Postvak In/A B'' \<noteq> ustr ''Postvak In/Unsorted''"
  by (simp add: validator_eval)

lemma str_lower_Nil: "str_lower db [] = []"
  by (simp add: str_lower_def)

lemma add_root_rooted:
  "add_root db x \<noteq> [] \<and>
   (prefix (ustr ''Postvak In/'') (add_root db x) \<or>
    (add_root db x = x \<and> prefix (ustr ''postvak in/'') (str_lower db x)))"
proof (cases "prefix (ustr ''postvak in/'') (str_lower db x)")
  case True
  then have "x \<noteq> []" by (auto simp: str_lower_Nil ustr_def)
  then show ?thesis using True by (simp add: add_root_def)
next
  case False
  then have "add_root db x = ustr ''Postvak In/'' @ x" by (simp add: add_root_def)
  then show ?thesis by (simp add: ustr_def)
qed

lemma lower_from_ascii_prefix:
  assumes "ascii_tables db" "\<forall>c\<in>set a. c < 128"
  shows "lower_from db rb (a @ b) = map ascii_lower a @ lower_from db (rev a @ rb) b"
  using assms(2)
proof (induction a arbitrary: rb)
  case Nil
  then show ?case by simp
next
  case (Cons x xs)
  then have "x < 128" by simp
  then have "lower_one db rb (xs @ b) x = [ascii_lower x]"
    using assms(1) by (simp add: lower_one_def ascii_tables_def)
  then show ?case using Cons by simp
qed

lemma lower_rooted:
  assumes "ascii_tables db"
  shows "prefix (ustr ''postvak in/'') (str_lower db (ustr ''Postvak In/'' @ x))"
proof -
  have a: "\<forall>c\<in>set (ustr ''Postvak In/''). c < 128" by (simp add: ustr_def)
  have "map ascii_lower (ustr ''Postvak In/'') = ustr ''postvak in/''"
    by (simp add: ustr_def ascii_lower_def)
  then show ?thesis
    unfolding str_lower_def lower_from_ascii_prefix [OF assms a] by simp
qed

lemma ascii_tables_excerpt: "ascii_tables ucd_excerpt"
  by (simp add: ascii_tables_def ucd_excerpt_def)

text \<open>
  Claim C3, as the code has it. The validator is a total function and its result is never
  empty. The result begins with \<^verbatim>\<open>Postvak In/\<close> itself, or it is the input after the
  trimming and the collapsing of white space (step 1), which is returned in its own
  spelling because its lower-case form begins with \<^verbatim>\<open>postvak in/\<close>. So the result
  begins with the root-prefix token up to letter case: for every Unicode table that is
  right on ASCII, the lower-case form of the result begins with \<^verbatim>\<open>postvak in/\<close>.
\<close>

theorem clean_folder_path_rooted:
  "clean_folder_path db folder_path \<noteq> [] \<and>
   (prefix (ustr ''Postvak In/'') (clean_folder_path db folder_path) \<or>
    (clean_folder_path db folder_path = sub_ws db (py_strip db folder_path) \<and>
     prefix (ustr ''postvak in/'') (str_lower db (clean_folder_path db folder_path)))) \<and>
   (ascii_tables db \<longrightarrow>
     prefix (ustr ''postvak in/'') (str_lower db (clean_folder_path db folder_path)))"
proof -
  let ?x = "sub_ws db (py_strip db folder_path)"
  have fb: "prefix (ustr ''Postvak In/'') (ustr ''Postvak In/Unsorted'')"
    by (simp add: ustr_def)
  have ne: "ustr ''Postvak In/Unsorted'' \<noteq> []" by (simp add: ustr_def)
  have 1: "clean_folder_path db folder_path \<noteq> [] \<and>
   (prefix (ustr ''Postvak In/'') (clean_folder_path db folder_path) \<or>
    (clean_folder_path db folder_path = ?x \<and>
     prefix (ustr ''postvak in/'') (str_lower db (clean_folder_path db folder_path))))"
    using add_root_rooted [of db ?x] fb ne
    unfolding clean_folder_path_def Let_def
    by (auto split: if_splits)
  have 2: "prefix (ustr ''postvak in/'') (str_lower db (clean_folder_path db folder_path))"
    if a: "ascii_tables db"
  proof -
    from 1 show ?thesis
    proof (elim conjE disjE)
      assume "prefix (ustr ''Postvak In/'') (clean_folder_path db folder_path)"
      then obtain y where "clean_folder_path db folder_path = ustr ''Postvak In/'' @ y"
        by (auto simp: prefix_def)
      then show ?thesis using lower_rooted [OF a] by simp
    qed simp
  qed
  show ?thesis using 1 2 by blast
qed

text \<open>The theorem at the bare subfolder path \<^verbatim>\<open>Orders/Invoices\<close> of the spec's
  scenario, which gets the token prepended, with the excerpt of the tables.\<close>

theorem clean_folder_path_rooted_witness:
  "ascii_tables ucd_excerpt \<and>
   clean_folder_path ucd_excerpt (ustr ''Orders/Invoices'') = ustr ''Postvak In/Orders/Invoices'' \<and>
   clean_folder_path ucd_excerpt (ustr ''Orders/Invoices'') \<noteq> [] \<and>
   prefix (ustr ''postvak in/'')
      (str_lower ucd_excerpt (clean_folder_path ucd_excerpt (ustr ''Orders/Invoices'')))"
proof -
  have "clean_folder_path ucd_excerpt (ustr ''Orders/Invoices'') = ustr ''Postvak In/Orders/Invoices''"
    by (simp add: validator_eval)
  with clean_folder_path_rooted [of ucd_excerpt "ustr ''Orders/Invoices''"] ascii_tables_excerpt
  show ?thesis by blast
qed

text \<open>Claim C3 as stated fails: the path \<^verbatim>\<open>postvak in/x\<close> is returned as it is, and
  it does not begin with \<^verbatim>\<open>Postvak In/\<close>.\<close>

theorem clean_folder_path_case_counterexample:
  "clean_folder_path ucd_excerpt (ustr ''postvak in/x'') = ustr ''postvak in/x'' \<and>
   \<not> prefix (ustr ''Postvak In/'') (clean_folder_path ucd_excerpt (ustr ''postvak in/x''))"
  by (simp add: validator_eval)

subsection \<open>A validated path has the delimiter\<close>




subsection \<open>The validator on ASCII paths\<close>

lemma ascii_lower_from:
  assumes "ascii_tables db" "\<forall>c\<in>set s. c < 128"
  shows "lower_from db rb s = map ascii_lower s"
  using assms(2)
proof (induction s arbitrary: rb)
  case Nil
  then show ?case by simp
next
  case (Cons x xs)
  then have "x < 128" by simp
  then have "lower_one db rb xs x = [ascii_lower x]"
    using assms(1) by (simp add: lower_one_def ascii_tables_def)
  then show ?case using Cons by simp
qed

lemma ascii_str_lower:
  "ascii_tables db \<Longrightarrow> \<forall>c\<in>set s. c < 128 \<Longrightarrow> str_lower db s = map ascii_lower s"
  by (simp add: str_lower_def ascii_lower_from)

lemma ascii_isspace: "ascii_tables db \<Longrightarrow> c < 128 \<Longrightarrow> isspace db c = ascii_space c"
  by (simp add: ascii_tables_def)

lemma ascii_dropWhile:
  "ascii_tables db \<Longrightarrow> \<forall>c\<in>set s. c < 128 \<Longrightarrow>
   dropWhile (isspace db) s = dropWhile ascii_space s"
  by (induction s) (auto simp: ascii_isspace)

lemma ascii_py_strip:
  assumes "ascii_tables db" "\<forall>c\<in>set s. c < 128"
  shows "py_strip db s = rev (dropWhile ascii_space (rev (dropWhile ascii_space s)))"
proof -
  have "\<forall>c\<in>set (rev (dropWhile ascii_space s)). c < 128"
    using assms(2) by (auto dest: set_dropWhileD)
  then show ?thesis using assms by (simp add: py_strip_def ascii_dropWhile)
qed

lemma deeper_path_rejected:
  assumes "ascii_tables db"
  shows "str_lower db (ustr ''Postvak In/Archive/Postvak In Old'') =
           ustr ''postvak in/archive/postvak in old''"
    and "clean_folder_path db (ustr ''Postvak In/Archive/Postvak In Old'') =
           ustr ''Postvak In/Unsorted''"
proof -
  let ?deep = "ustr ''Postvak In/Archive/Postvak In Old''"
  have ascii: "\<forall>c\<in>set ?deep. c < 128" by (simp add: ustr_def)
  have sp: "\<And>c. c < 128 \<Longrightarrow> isspace db c = ascii_space c"
    using assms by (simp add: ascii_isspace)
  have 1: "py_strip db ?deep = ?deep"
    by (simp add: ascii_py_strip [OF assms ascii]) (simp add: ustr_def ascii_space_def)
  have 2: "sub_ws db ?deep = ?deep"
    by (simp add: ustr_def sp ascii_space_def)
  show 3: "str_lower db ?deep = ustr ''postvak in/archive/postvak in old''"
    by (simp add: ascii_str_lower [OF assms ascii]) (simp add: ustr_def ascii_lower_def)
  have 4: "add_root db ?deep = ?deep"
    by (simp add: add_root_def 3) (simp add: ustr_def)
  have 5: "re_search root_like (ustr ''postvak in/archive/postvak in old'')"
    by (simp add: root_like_def lit_def ustr_def in_class_def)
  show "clean_folder_path db ?deep = ustr ''Postvak In/Unsorted''"
    by (simp add: clean_folder_path_def 1 2 3 4 5 FORBIDDEN_PATTERNS_def)
qed

text \<open>
  Claim C9. The path \<^verbatim>\<open>Postvak In/Archive/Postvak In Old\<close> begins with the root-prefix
  token, has only code points of the class \<^verbatim>\<open>[A-Za-z0-9/ -]\<close> and no ellipsis, and the
  validator returns the fallback path for it: the pattern \<^verbatim>\<open>postvak in[^/]*[^/]\<close>
  matches the token where it stands again in the third segment.
\<close>

theorem root_like_rejects_deeper_path:
  assumes "ascii_tables db"
  shows "\<exists>p. prefix (ustr ''Postvak In/'') p \<and> (\<forall>c\<in>set p. in_class allowed_class c) \<and>
     \<not> re_search strange_symbol (str_lower db p) \<and>
     \<not> re_search ellipsis (str_lower db p) \<and>
     re_search root_like (str_lower db p) \<and>
     clean_folder_path db p = ustr ''Postvak In/Unsorted''"
proof (intro exI conjI)
  let ?deep = "ustr ''Postvak In/Archive/Postvak In Old''"
  note low = deeper_path_rejected(1) [OF assms]
  show "prefix (ustr ''Postvak In/'') ?deep" by (simp add: ustr_def)
  show "\<forall>c\<in>set ?deep. in_class allowed_class c"
    by (simp add: ustr_def in_class_def allowed_class_def)
  show "\<not> re_search strange_symbol (str_lower db ?deep)"
    unfolding low by (simp add: strange_symbol_def ustr_def in_class_def allowed_class_def)
  show "\<not> re_search ellipsis (str_lower db ?deep)"
    unfolding low by (simp add: ellipsis_def lit_def ustr_def)
  show "re_search root_like (str_lower db ?deep)"
    unfolding low by (simp add: root_like_def lit_def ustr_def in_class_def)
  show "clean_folder_path db ?deep = ustr ''Postvak In/Unsorted''"
    by (rule deeper_path_rejected(2) [OF assms])
qed

text \<open>The theorem with the excerpt of the tables.\<close>

theorem root_like_rejects_deeper_path_witness:
  "ascii_tables ucd_excerpt \<and>
   (\<exists>p. prefix (ustr ''Postvak In/'') p \<and> (\<forall>c\<in>set p. in_class allowed_class c) \<and>
     \<not> re_search strange_symbol (str_lower ucd_excerpt p) \<and>
     \<not> re_search ellipsis (str_lower ucd_excerpt p) \<and>
     re_search root_like (str_lower ucd_excerpt p) \<and>
     clean_folder_path ucd_excerpt p = ustr ''Postvak In/Unsorted'')"
  using root_like_rejects_deeper_path [OF ascii_tables_excerpt] ascii_tables_excerpt
  by blast

section \<open>Properties of the normalizer\<close>

lemma filter_sort_key_zero:
  "\<forall>x\<in>set xs. f x \<noteq> (0::nat) \<Longrightarrow> filter (\<lambda>c. f c = 0) (sort_key f xs) = []"
  by (simp add: filter_empty_conv)

text \<open>The order of the combining marks does not reach the key: they are all dropped.\<close>

lemma canonical_order_marks:
  "filter (\<lambda>c. combining db c = 0) (canonical_order db s) = filter (\<lambda>c. combining db c = 0) s"
proof (induction db s rule: canonical_order.induct)
  case (1 db)
  then show ?case by simp
next
  case (2 db c cs)
  show ?case
  proof (cases "combining db c = 0")
    case True
    then show ?thesis using 2 by simp
  next
    case False
    let ?P = "\<lambda>x. combining db x \<noteq> 0"
    have run: "filter (\<lambda>c. combining db c = 0) (sort_key (combining db) (c # takeWhile ?P cs)) = []"
      using False by (intro filter_sort_key_zero) (auto dest: set_takeWhileD)
    have "filter (\<lambda>c. combining db c = 0) cs =
          filter (\<lambda>c. combining db c = 0) (takeWhile ?P cs @ dropWhile ?P cs)"
      by simp
    also have "\<dots> = filter (\<lambda>c. combining db c = 0) (dropWhile ?P cs)"
      unfolding filter_append by (simp add: filter_empty_conv) (auto dest: set_takeWhileD)
    finally have rest: "filter (\<lambda>c. combining db c = 0) cs =
          filter (\<lambda>c. combining db c = 0) (dropWhile ?P cs)" .
    show ?thesis
      using False 2(2) [OF False] run rest
      by (simp del: sort_key_simps filter.simps add: canonical_order.simps filter_append) simp
  qed
qed

lemma py_strip_split:
  "\<exists>l r. s = l @ py_strip db s @ r \<and> list_all (isspace db) l \<and> list_all (isspace db) r"
proof -
  let ?P = "isspace db"
  let ?m = "dropWhile ?P s"
  have 1: "s = takeWhile ?P s @ ?m" by simp
  have "?m = rev (rev ?m)" by simp
  also have "\<dots> = rev (takeWhile ?P (rev ?m) @ dropWhile ?P (rev ?m))"
    by (simp only: takeWhile_dropWhile_id)
  also have "\<dots> = py_strip db s @ rev (takeWhile ?P (rev ?m))"
    by (simp only: rev_append py_strip_def)
  finally have 3: "?m = py_strip db s @ rev (takeWhile ?P (rev ?m))" .
  have "s = takeWhile ?P s @ py_strip db s @ rev (takeWhile ?P (rev ?m))"
    using 1 3 by metis
  moreover have "list_all ?P (takeWhile ?P s)" "list_all ?P (rev (takeWhile ?P (rev ?m)))"
    by (auto simp: list_all_iff dest: set_takeWhileD)
  ultimately show ?thesis by blast
qed

lemma py_strip_ends:
  assumes ne: "py_strip db s \<noteq> []"
  shows "\<not> isspace db (hd (py_strip db s)) \<and> \<not> isspace db (last (py_strip db s))"
proof -
  let ?P = "isspace db"
  let ?m = "dropWhile ?P s"
  let ?t = "dropWhile ?P (rev ?m)"
  have t: "py_strip db s = rev ?t" by (simp add: py_strip_def)
  then have tne: "?t \<noteq> []" using ne by simp
  then have a: "\<not> ?P (hd ?t)" by (rule hd_dropWhile)
  have mne: "?m \<noteq> []"
  proof
    assume e: "?m = []"
    have "?t = []" unfolding e by simp
    then show False using tne by blast
  qed
  then have b: "\<not> ?P (hd ?m)" by (rule hd_dropWhile)
  have "last (rev ?t) = hd ?t" using tne by (simp add: last_rev)
  moreover have "hd (rev ?t) = last ?t" using tne by (simp add: hd_rev)
  moreover have "last ?t = last (rev ?m)"
  proof -
    have "rev ?m = takeWhile ?P (rev ?m) @ ?t" by simp
    then show ?thesis using tne by (metis last_appendR)
  qed
  moreover have "last (rev ?m) = hd ?m" using mne by (simp add: last_rev)
  ultimately show ?thesis using a b t by simp
qed

lemma lower_from_marks:
  assumes "marks_stay_out db"
    and "\<forall>d\<in>set t. combining db d = 0 \<and> (\<exists>c. d \<in> set (decomposition db c))"
  shows "\<forall>e\<in>set (lower_from db rb t). combining db e = 0"
  using assms(2)
proof (induction t arbitrary: rb)
  case Nil
  then show ?case by simp
next
  case (Cons x xs)
  have "\<forall>e\<in>set (lower_one db rb xs x). combining db e = 0"
  proof (cases "x = 0x3A3")
    case True
    then show ?thesis using assms(1) by (simp add: lower_one_def marks_stay_out_def)
  next
    case False
    from Cons.prems obtain c where "combining db x = 0" "x \<in> set (decomposition db c)"
      by auto
    then show ?thesis using assms(1) False
      unfolding marks_stay_out_def lower_one_def by auto
  qed
  then show ?case using Cons by auto
qed

lemma marks_stay_out_excerpt: "marks_stay_out ucd_excerpt"
  by (auto simp: marks_stay_out_def ucd_excerpt_def ascii_lower_def split: if_splits)

lemmas normalizer_eval =
  normalize_name_def NFKD_def py_strip_def str_lower_def lower_one_def
  ucd_excerpt_def ascii_space_def ascii_lower_def ustr_def

text \<open>
  Claim C7, as the code has it. For every input string the key is the lower-case form of
  a string \<open>t\<close>, where \<open>t\<close> is the compatibility decomposition of the input without its
  combining marks and without the white space at its two ends: only white space before
  \<open>t\<close> and after \<open>t\<close> is removed, so a run of white space inside is kept as it is. The key
  is diacritic-free (it has no combining mark, as lower-casing brings none back), it is
  lower-cased and it is trimmed; it is not collapsed.
\<close>

theorem normalize_name_trims_only:
  "\<exists>l t r. filter (\<lambda>c. combining db c = 0) (concat (map (decomposition db) name)) = l @ t @ r \<and>
     list_all (isspace db) l \<and> list_all (isspace db) r \<and>
     (t = [] \<or> (\<not> isspace db (hd t) \<and> \<not> isspace db (last t))) \<and>
     normalize_name db name = str_lower db t \<and>
     (marks_stay_out db \<longrightarrow> (\<forall>e\<in>set (normalize_name db name). combining db e = 0))"
proof -
  define u where "u = filter (\<lambda>c. combining db c = 0) (concat (map (decomposition db) name))"
  define t where "t = py_strip db u"
  have key: "normalize_name db name = str_lower db t"
    by (simp add: normalize_name_def NFKD_def canonical_order_marks t_def u_def)
  obtain l r where lr: "u = l @ t @ r" "list_all (isspace db) l" "list_all (isspace db) r"
    using py_strip_split [of u db] unfolding t_def by blast
  have ends: "t = [] \<or> (\<not> isspace db (hd t) \<and> \<not> isspace db (last t))"
    using py_strip_ends [of db u] unfolding t_def by blast
  have "set t \<subseteq> set u" using lr(1) by auto
  then have tu: "\<forall>d\<in>set t. combining db d = 0 \<and> (\<exists>c. d \<in> set (decomposition db c))"
    unfolding u_def by auto
  have marks: "marks_stay_out db \<longrightarrow> (\<forall>e\<in>set (normalize_name db name). combining db e = 0)"
    using lower_from_marks [OF _ tu, of "[]"] unfolding key str_lower_def by blast
  show ?thesis
    using lr ends key marks unfolding u_def by blast
qed

text \<open>The theorem at the name \<^verbatim>\<open> Caf<U+00E9>  Bar \<close>: the key is \<^verbatim>\<open>cafe  bar\<close>, with
  the two spaces inside, and it has no combining mark.\<close>

theorem normalize_name_trims_only_witness:
  "marks_stay_out ucd_excerpt \<and>
   normalize_name ucd_excerpt ([32] @ ustr ''Caf'' @ [0xE9] @ ustr ''  Bar '') = ustr ''cafe  bar'' \<and>
   list_all (\<lambda>e. combining ucd_excerpt e = 0)
     (normalize_name ucd_excerpt ([32] @ ustr ''Caf'' @ [0xE9] @ ustr ''  Bar ''))"
proof -
  have "normalize_name ucd_excerpt ([32] @ ustr ''Caf'' @ [0xE9] @ ustr ''  Bar '') = ustr ''cafe  bar''"
    by (simp add: normalizer_eval)
  moreover have "list_all (\<lambda>e. combining ucd_excerpt e = 0)
     (normalize_name ucd_excerpt ([32] @ ustr ''Caf'' @ [0xE9] @ ustr ''  Bar ''))"
    using normalize_name_trims_only [of ucd_excerpt "[32] @ ustr ''Caf'' @ [0xE9] @ ustr ''  Bar ''"]
      marks_stay_out_excerpt
    unfolding list_all_iff by blast
  ultimately show ?thesis using marks_stay_out_excerpt by blast
qed

text \<open>Claim C7 as stated fails: the key of \<^verbatim>\<open>A  B\<close> is \<^verbatim>\<open>a  b\<close>, with the run of two
  spaces that collapsing would turn into one.\<close>

theorem normalize_name_inner_run_counterexample:
  "normalize_name ucd_excerpt (ustr ''A  B'') = ustr ''a  b'' \<and>
   sub_ws ucd_excerpt (ustr ''a  b'') = ustr ''a b'' \<and>
   ustr ''a  b'' \<noteq> ustr ''a b''"
  by (simp add: normalizer_eval)

section \<open>Properties of the classification call\<close>

subsection \<open>The prompt\<close>










subsection \<open>The reply\<close>














subsection \<open>The call\<close>




subsection \<open>The call on a concrete e-mail\<close>









section \<open>Properties of the folder cache\<close>

lemma record_paths_append:
  "record_paths db (ps @ qs) k = record_paths db qs (record_paths db ps k)"
  by (simp add: record_paths_def)

lemma build_is_record:
  "build_folder_cache db root base k = record_paths db (folder_paths root base) k"
  "build_children db fs base k = record_paths db (children_paths fs base) k"
proof (induction db root base k and db fs base k rule: build_folder_cache_build_children.induct)
  case (1 db n t fs base known_folders)
  then show ?case by simp
next
  case (2 db base known_folders)
  then show ?case by (simp add: record_paths_def)
next
  case (3 db f fs base known_folders)
  let ?path = "base @ ustr ''/'' @ Name f"
  let ?k1 = "known_folders(normalize_name db ?path \<mapsto> ?path)"
  have a: "build_folder_cache db f ?path ?k1 = record_paths db (folder_paths f ?path) ?k1"
    by (rule 3(1) [OF refl refl])
  have b: "build_children db fs base (build_folder_cache db f ?path ?k1) =
           record_paths db (children_paths fs base) (build_folder_cache db f ?path ?k1)"
    by (rule 3(2) [OF refl refl refl])
  have c: "record_paths db (?path # folder_paths f ?path) known_folders =
           record_paths db (folder_paths f ?path) ?k1"
    by (simp add: record_paths_def)
  show ?case
    using a b c record_paths_append [of db "?path # folder_paths f ?path" "children_paths fs base" known_folders]
    by (simp add: Let_def)
qed

lemma record_paths_lookup:
  "p \<in> set ps \<Longrightarrow>
   \<exists>v\<in>set ps. normalize_name db v = normalize_name db p \<and>
      record_paths db ps k (normalize_name db p) = Some v"
proof (induction ps rule: rev_induct)
  case Nil
  then show ?case by simp
next
  case (snoc q qs)
  show ?case
  proof (cases "normalize_name db q = normalize_name db p")
    case True
    then show ?thesis by (auto simp: record_paths_def)
  next
    case False
    then have "p \<in> set qs" using snoc.prems by auto
    from snoc.IH [OF this] False show ?thesis by (auto simp: record_paths_def)
  qed
qed

text \<open>Of the entries written under one key the last one stays.\<close>

lemma record_paths_last:
  "p \<in> set ps \<Longrightarrow>
   record_paths db ps k (normalize_name db p) =
     Some (last (filter (\<lambda>q. normalize_name db q = normalize_name db p) ps))"
proof (induction ps rule: rev_induct)
  case Nil
  then show ?case by simp
next
  case (snoc q qs)
  have r: "record_paths db (qs @ [q]) k = (record_paths db qs k)(normalize_name db q \<mapsto> q)"
    by (simp add: record_paths_def)
  show ?case
  proof (cases "normalize_name db q = normalize_name db p")
    case True
    then show ?thesis unfolding r by simp
  next
    case False
    then have "p \<in> set qs" using snoc.prems by auto
    from snoc.IH [OF this] False show ?thesis unfolding r by simp
  qed
qed

lemma record_paths_consistent:
  "cache_consistent db k \<Longrightarrow> cache_consistent db (record_paths db ps k)"
proof (induction ps rule: rev_induct)
  case Nil
  then show ?case by (simp add: record_paths_def)
next
  case (snoc q qs)
  have "record_paths db (qs @ [q]) k = (record_paths db qs k)(normalize_name db q \<mapsto> q)"
    by (simp add: record_paths_def)
  then show ?case using snoc unfolding cache_consistent_def by (simp split: if_splits)
qed

lemma record_paths_dom: "dom k \<subseteq> dom (record_paths db ps k)"
proof (induction ps rule: rev_induct)
  case Nil
  then show ?case by (simp add: record_paths_def)
next
  case (snoc q qs)
  have "record_paths db (qs @ [q]) k = (record_paths db qs k)(normalize_name db q \<mapsto> q)"
    by (simp add: record_paths_def)
  then show ?case using snoc by auto
qed


lemma paths_of_nodes:
  "set (folder_paths root base) = {p. \<exists>n. n \<noteq> [] \<and> node_path root base n = Some p}"
  "set (children_paths fs base) =
     {p. \<exists>i n. i < length fs \<and> node_path (fs ! i) (base @ ustr ''/'' @ Name (fs ! i)) n = Some p}"
proof (induction root base and fs base rule: folder_paths_children_paths.induct)
  case (1 n t fs base)
  have "\<And>p. (\<exists>m. m \<noteq> [] \<and> node_path (Folder n t fs) base m = Some p) \<longleftrightarrow>
     (\<exists>i m. i < length fs \<and> node_path (fs ! i) (base @ ustr ''/'' @ Name (fs ! i)) m = Some p)"
  proof
    fix p
    assume "\<exists>m. m \<noteq> [] \<and> node_path (Folder n t fs) base m = Some p"
    then obtain m where m: "m \<noteq> []" "node_path (Folder n t fs) base m = Some p" by blast
    then obtain i m' where "m = i # m'" by (cases m) auto
    then show "\<exists>i m. i < length fs \<and> node_path (fs ! i) (base @ ustr ''/'' @ Name (fs ! i)) m = Some p"
      using m(2) by (auto split: if_splits)
  next
    fix p
    assume "\<exists>i m. i < length fs \<and> node_path (fs ! i) (base @ ustr ''/'' @ Name (fs ! i)) m = Some p"
    then obtain i m where "i < length fs" "node_path (fs ! i) (base @ ustr ''/'' @ Name (fs ! i)) m = Some p"
      by blast
    then have "node_path (Folder n t fs) base (i # m) = Some p" by simp
    then show "\<exists>m. m \<noteq> [] \<and> node_path (Folder n t fs) base m = Some p" by blast
  qed
  then show ?case using 1 by simp
next
  case (2 base)
  then show ?case by simp
next
  case (3 f fs base)
  let ?path = "base @ ustr ''/'' @ Name f"
  let ?R = "\<lambda>gs p. \<exists>i n. i < length gs \<and> node_path (gs ! i) (base @ ustr ''/'' @ Name (gs ! i)) n = Some p"
  have split: "\<And>p. ?R (f # fs) p \<longleftrightarrow> (\<exists>n. node_path f ?path n = Some p) \<or> ?R fs p"
  proof
    fix p
    assume "?R (f # fs) p"
    then obtain i n where i: "i < length (f # fs)"
      "node_path ((f # fs) ! i) (base @ ustr ''/'' @ Name ((f # fs) ! i)) n = Some p" by blast
    show "(\<exists>n. node_path f ?path n = Some p) \<or> ?R fs p"
    proof (cases i)
      case 0
      then show ?thesis using i by auto
    next
      case (Suc j)
      then show ?thesis using i by auto
    qed
  next
    fix p
    assume "(\<exists>n. node_path f ?path n = Some p) \<or> ?R fs p"
    then show "?R (f # fs) p"
    proof
      assume "\<exists>n. node_path f ?path n = Some p"
      then obtain n where "node_path f ?path n = Some p" by blast
      then have "0 < length (f # fs) \<and> node_path ((f # fs) ! 0) (base @ ustr ''/'' @ Name ((f # fs) ! 0)) n = Some p"
        by simp
      then show ?thesis by blast
    next
      assume "?R fs p"
      then obtain i n where "i < length fs" "node_path (fs ! i) (base @ ustr ''/'' @ Name (fs ! i)) n = Some p"
        by blast
      then have "Suc i < length (f # fs) \<and>
         node_path ((f # fs) ! Suc i) (base @ ustr ''/'' @ Name ((f # fs) ! Suc i)) n = Some p"
        by simp
      then show ?thesis by blast
    qed
  qed
  have own: "\<And>p. (\<exists>n. node_path f ?path n = Some p) \<longleftrightarrow>
      p = ?path \<or> (\<exists>n. n \<noteq> [] \<and> node_path f ?path n = Some p)"
  proof
    fix p
    assume "\<exists>n. node_path f ?path n = Some p"
    then obtain n where n: "node_path f ?path n = Some p" by blast
    show "p = ?path \<or> (\<exists>n. n \<noteq> [] \<and> node_path f ?path n = Some p)"
    proof (cases n)
      case Nil
      then show ?thesis using n by simp
    next
      case (Cons a list)
      then show ?thesis using n by blast
    qed
  next
    fix p
    assume "p = ?path \<or> (\<exists>n. n \<noteq> [] \<and> node_path f ?path n = Some p)"
    then show "\<exists>n. node_path f ?path n = Some p"
    proof
      assume "p = ?path"
      then have "node_path f ?path [] = Some p" by simp
      then show ?thesis by blast
    qed blast
  qed
  have ih1: "\<And>p. p \<in> set (folder_paths f ?path) \<longleftrightarrow>
      (\<exists>n. n \<noteq> [] \<and> node_path f ?path n = Some p)"
    using 3(1) by blast
  have ih2: "\<And>p. p \<in> set (children_paths fs base) \<longleftrightarrow> ?R fs p"
    using 3(2) by blast
  have "\<And>p. p \<in> set (children_paths (f # fs) base) \<longleftrightarrow> ?R (f # fs) p"
  proof -
    fix p
    have "p \<in> set (children_paths (f # fs) base) \<longleftrightarrow>
        p = ?path \<or> p \<in> set (folder_paths f ?path) \<or> p \<in> set (children_paths fs base)"
      by simp
    also have "\<dots> \<longleftrightarrow> (\<exists>n. node_path f ?path n = Some p) \<or> ?R fs p"
      unfolding ih1 ih2 own by blast
    also have "\<dots> \<longleftrightarrow> ?R (f # fs) p"
      unfolding split ..
    finally show "p \<in> set (children_paths (f # fs) base) \<longleftrightarrow> ?R (f # fs) p" .
  qed
  then show ?case by blast
qed

section \<open>Properties of the folder resolver\<close>

subsection \<open>find_child\<close>

lemma find_child_Some:
  "find_child part fs = Some i \<Longrightarrow> i < length fs \<and> Name (fs ! i) = part"
proof (induction fs arbitrary: i)
  case Nil
  then show ?case by simp
next
  case (Cons f fs)
  show ?case
  proof (cases "Name f = part")
    case True
    then show ?thesis using Cons.prems by simp
  next
    case False
    then obtain j where j: "find_child part fs = Some j" "i = Suc j"
      using Cons.prems by auto
    from Cons.IH [OF j(1)] j(2) show ?thesis by simp
  qed
qed

lemma find_child_append:
  "find_child part fs = None \<Longrightarrow> Name g = part \<Longrightarrow> find_child part (fs @ [g]) = Some (length fs)"
  by (induction fs) (auto split: if_splits)

lemma find_child_update:
  "find_child part fs = Some i \<Longrightarrow> Name g = part \<Longrightarrow> find_child part (fs[i := g]) = Some i"
proof (induction fs arbitrary: i)
  case Nil
  then show ?case by simp
next
  case (Cons f fs)
  show ?case
  proof (cases "Name f = part")
    case True
    then show ?thesis using Cons.prems by simp
  next
    case False
    then obtain j where j: "find_child part fs = Some j" "i = Suc j"
      using Cons.prems by auto
    from Cons.IH [OF j(1) Cons.prems(2)] j(2) False show ?thesis by simp
  qed
qed

subsection \<open>One step of the walk\<close>

lemma walk_found:
  assumes "find_child part (Folders f) = Some i"
    and "walk db c (Folders f ! i) parts (rp @ ustr ''/'' @ part)
           (k(normalize_name db (rp @ ustr ''/'' @ part) \<mapsto> rp @ ustr ''/'' @ part)) = (r, s, k')"
  shows "walk db c f (part # parts) rp k =
     (map_option ((#) i) r, Folder (Name f) (DefaultItemType f) ((Folders f)[i := s]), k')"
  using assms by (simp add: Let_def)

lemma walk_created:
  assumes "find_child part (Folders f) = None"
    and "walk db True (Folder part (DefaultItemType f) []) parts (rp @ ustr ''/'' @ part)
           (k(normalize_name db (rp @ ustr ''/'' @ part) \<mapsto> rp @ ustr ''/'' @ part)) = (r, s, k')"
  shows "walk db True f (part # parts) rp k =
     (map_option ((#) (length (Folders f))) r,
      Folder (Name f) (DefaultItemType f) (Folders f @ [s]), k')"
  using assms by (simp add: Let_def)

lemma walk_abandoned:
  "find_child part (Folders f) = None \<Longrightarrow> walk db False f (part # parts) rp k = (None, f, k)"
  by simp

lemma walk_Cons_cases:
  fixes db c f part rest rp k
  defines "rp' \<equiv> rp @ ustr ''/'' @ part"
  defines "k1 \<equiv> k(normalize_name db (rp @ ustr ''/'' @ part) \<mapsto> rp @ ustr ''/'' @ part)"
  obtains (Found) i r s k' where "find_child part (Folders f) = Some i"
      "walk db c (Folders f ! i) rest rp' k1 = (r, s, k')"
      "walk db c f (part # rest) rp k =
         (map_option ((#) i) r, Folder (Name f) (DefaultItemType f) ((Folders f)[i := s]), k')"
  | (Created) r s k' where "find_child part (Folders f) = None" "c"
      "walk db c (Folder part (DefaultItemType f) []) rest rp' k1 = (r, s, k')"
      "walk db c f (part # rest) rp k =
         (map_option ((#) (length (Folders f))) r,
          Folder (Name f) (DefaultItemType f) (Folders f @ [s]), k')"
  | (Abandoned) "find_child part (Folders f) = None" "\<not> c"
      "walk db c f (part # rest) rp k = (None, f, k)"
proof (cases "find_child part (Folders f)")
  case None
  show ?thesis
  proof (cases c)
    case True
    then have ct: "c = True" by simp
    obtain r s k' where w: "walk db c (Folder part (DefaultItemType f) []) rest rp' k1 = (r, s, k')"
      by (cases "walk db c (Folder part (DefaultItemType f) []) rest rp' k1") blast
    have "walk db c f (part # rest) rp k =
         (map_option ((#) (length (Folders f))) r,
          Folder (Name f) (DefaultItemType f) (Folders f @ [s]), k')"
      using walk_created [OF None w [unfolded ct rp'_def k1_def]] unfolding ct .
    from that(2) [OF None True w this] show ?thesis .
  next
    case False
    then have cf: "c = False" by simp
    have "walk db c f (part # rest) rp k = (None, f, k)"
      unfolding cf by (rule walk_abandoned [OF None])
    from that(3) [OF None False this] show ?thesis .
  qed
next
  case (Some i)
  obtain r s k' where w: "walk db c (Folders f ! i) rest rp' k1 = (r, s, k')"
    by (cases "walk db c (Folders f ! i) rest rp' k1") blast
  have "walk db c f (part # rest) rp k =
         (map_option ((#) i) r, Folder (Name f) (DefaultItemType f) ((Folders f)[i := s]), k')"
    by (rule walk_found [OF Some w [unfolded rp'_def k1_def]])
  from that(1) [OF Some w this] show ?thesis .
qed

lemma walk_keeps_name:
  assumes "walk db c f parts rp k = (r, f', k')"
  shows "Name f' = Name f"
proof (cases parts)
  case Nil
  then show ?thesis using assms by simp
next
  case (Cons part rest)
  show ?thesis
  proof (cases rule: walk_Cons_cases [of part f db c rest rp k])
    case (Found i r0 s k0)
    from assms [unfolded Cons Found(3)] show ?thesis by auto
  next
    case (Created r0 s k0)
    from assms [unfolded Cons Created(4)] show ?thesis by auto
  next
    case Abandoned
    from assms [unfolded Cons Abandoned(3)] show ?thesis by auto
  qed
qed

lemma cache_consistent_update:
  "cache_consistent db k \<Longrightarrow> cache_consistent db (k(normalize_name db p \<mapsto> p))"
  unfolding cache_consistent_def by (simp split: if_splits)

lemma walk_consistent:
  "cache_consistent db k \<Longrightarrow> walk db c f parts rp k = (r, f', k') \<Longrightarrow> cache_consistent db k'"
proof (induction parts arbitrary: f rp k r f' k')
  case Nil
  then show ?case by auto
next
  case (Cons part rest)
  let ?rp = "rp @ ustr ''/'' @ part"
  let ?k = "k(normalize_name db ?rp \<mapsto> ?rp)"
  have ck: "cache_consistent db ?k" using Cons.prems(1) by (rule cache_consistent_update)
  show ?case
  proof (cases rule: walk_Cons_cases [of part f db c rest rp k])
    case (Found i r0 s k0)
    from Cons.prems(2) [unfolded Found(3)] have "k' = k0" by auto
    then show ?thesis using Cons.IH [OF ck Found(2)] by simp
  next
    case (Created r0 s k0)
    from Cons.prems(2) [unfolded Created(4)] have "k' = k0" by auto
    then show ?thesis using Cons.IH [OF ck Created(3)] by simp
  next
    case Abandoned
    from Cons.prems(2) [unfolded Abandoned(3)] have "k' = k" by auto
    then show ?thesis using Cons.prems(1) by simp
  qed
qed

lemma walk_dom:
  "walk db c f parts rp k = (r, f', k') \<Longrightarrow> dom k \<subseteq> dom k'"
proof (induction parts arbitrary: f rp k r f' k')
  case Nil
  then show ?case by auto
next
  case (Cons part rest)
  let ?rp = "rp @ ustr ''/'' @ part"
  let ?k = "k(normalize_name db ?rp \<mapsto> ?rp)"
  have dk: "dom k \<subseteq> dom ?k" by auto
  show ?case
  proof (cases rule: walk_Cons_cases [of part f db c rest rp k])
    case (Found i r0 s k0)
    from Cons.prems [unfolded Found(3)] have "k' = k0" by auto
    then show ?thesis using Cons.IH [OF Found(2)] dk by blast
  next
    case (Created r0 s k0)
    from Cons.prems [unfolded Created(4)] have "k' = k0" by auto
    then show ?thesis using Cons.IH [OF Created(3)] dk by blast
  next
    case Abandoned
    from Cons.prems [unfolded Abandoned(3)] have "k' = k" by auto
    then show ?thesis by simp
  qed
qed

text \<open>With creation allowed the walk reaches a folder, and the exact first-match descent
  in the tree it leaves reaches the same folder.\<close>

lemma walk_create_descend:
  "walk db True f parts rp k = (r, f', k') \<Longrightarrow> \<exists>n. r = Some n \<and> descend f' parts = Some n"
proof (induction parts arbitrary: f rp k r f' k')
  case Nil
  then show ?case by auto
next
  case (Cons part rest)
  show ?case
  proof (cases rule: walk_Cons_cases [of part f db True rest rp k])
    case (Found i r0 s k0)
    from Cons.IH [OF Found(2)]
    obtain n where n: "r0 = Some n" "descend s rest = Some n" by auto
    have i: "i < length (Folders f)" "Name (Folders f ! i) = part"
      using find_child_Some [OF Found(1)] by simp_all
    have "Name s = part" using walk_keeps_name [OF Found(2)] i by simp
    then have fc: "find_child part ((Folders f)[i := s]) = Some i"
      using find_child_update [OF Found(1)] by simp
    from Cons.prems [unfolded Found(3)]
    have r: "r = Some (i # n)" and f': "f' = Folder (Name f) (DefaultItemType f) ((Folders f)[i := s])"
      using n(1) by auto
    have "descend f' (part # rest) = Some (i # n)"
      unfolding f' using fc i(1) n(2) by simp
    then show ?thesis using r by simp
  next
    case (Created r0 s k0)
    from Cons.IH [OF Created(3)]
    obtain n where n: "r0 = Some n" "descend s rest = Some n" by auto
    have "Name s = part" using walk_keeps_name [OF Created(3)] by simp
    then have fc: "find_child part (Folders f @ [s]) = Some (length (Folders f))"
      using find_child_append [OF Created(1)] by simp
    from Cons.prems [unfolded Created(4)]
    have r: "r = Some (length (Folders f) # n)"
      and f': "f' = Folder (Name f) (DefaultItemType f) (Folders f @ [s])"
      using n(1) by auto
    have "descend f' (part # rest) = Some (length (Folders f) # n)"
      unfolding f' using fc n(2) by simp
    then show ?thesis using r by simp
  next
    case Abandoned
    then show ?thesis by simp
  qed
qed

text \<open>Where the descent reaches a folder, the walk reaches it too and leaves the tree as
  it is, with or without the permission to create.\<close>

lemma descend_walk:
  "descend f parts = Some n \<Longrightarrow> \<exists>k'. walk db c f parts rp k = (Some n, f, k')"
proof (induction parts arbitrary: f rp k n)
  case Nil
  then show ?case by simp
next
  case (Cons part rest)
  let ?rp = "rp @ ustr ''/'' @ part"
  let ?k = "k(normalize_name db ?rp \<mapsto> ?rp)"
  from Cons.prems obtain i m where i: "find_child part (Folders f) = Some i"
    "descend (Folders f ! i) rest = Some m" "n = i # m"
    by (auto split: option.splits)
  from Cons.IH [OF i(2), of ?rp ?k] obtain k' where
    w: "walk db c (Folders f ! i) rest ?rp ?k = (Some m, Folders f ! i, k')" by blast
  have "Folder (Name f) (DefaultItemType f) ((Folders f)[i := Folders f ! i]) = f"
    by simp
  then have "walk db c f (part # rest) rp k = (Some n, f, k')"
    using walk_found [OF i(1) w] i(3) by simp
  then show ?case by blast
qed

text \<open>Without the permission to create, the walk is the descent and the tree is left as it
  is.\<close>

lemma walk_no_create:
  "walk db False f parts rp k = (r, f', k') \<Longrightarrow> f' = f \<and> r = descend f parts"
proof (induction parts arbitrary: f rp k r f' k')
  case Nil
  then show ?case by auto
next
  case (Cons part rest)
  show ?case
  proof (cases rule: walk_Cons_cases [of part f db False rest rp k])
    case (Found i r0 s k0)
    from Cons.IH [OF Found(2)] have s: "s = Folders f ! i" "r0 = descend (Folders f ! i) rest"
      by simp_all
    have "Folder (Name f) (DefaultItemType f) ((Folders f)[i := Folders f ! i]) = f"
      by simp
    then show ?thesis using Cons.prems [unfolded Found(3)] s Found(1) by auto
  next
    case (Created r0 s k0)
    then show ?thesis by simp
  next
    case Abandoned
    then show ?thesis using Cons.prems [unfolded Abandoned(3)] by auto
  qed
qed

text \<open>The last entry that a walk with at least one segment writes is the entry of the
  whole path walked.\<close>

lemma walk_last_entry:
  "walk db c f parts rp k = (Some n, f', k') \<Longrightarrow> parts \<noteq> [] \<Longrightarrow>
   k' (normalize_name db (foldl (\<lambda>a p. a @ ustr ''/'' @ p) rp parts)) =
     Some (foldl (\<lambda>a p. a @ ustr ''/'' @ p) rp parts)"
proof (induction parts arbitrary: f rp k n f' k')
  case Nil
  then show ?case by simp
next
  case (Cons part rest)
  let ?rp = "rp @ ustr ''/'' @ part"
  let ?k = "k(normalize_name db ?rp \<mapsto> ?rp)"
  have step: "k0 (normalize_name db (foldl (\<lambda>a p. a @ ustr ''/'' @ p) ?rp rest)) =
        Some (foldl (\<lambda>a p. a @ ustr ''/'' @ p) ?rp rest)"
    if w: "walk db c g rest ?rp ?k = (Some m, s, k0)" for g m s k0
  proof (cases "rest = []")
    case True
    from w [unfolded True] have "k0 = ?k" by auto
    then show ?thesis using True by simp
  next
    case False
    from Cons.IH [OF w False] show ?thesis .
  qed
  show ?case
  proof (cases rule: walk_Cons_cases [of part f db c rest rp k])
    case (Found i r0 s k0)
    from Cons.prems(1) [unfolded Found(3)] obtain m where "k' = k0" "r0 = Some m" by auto
    then show ?thesis using step [of "Folders f ! i" m s k0] Found(2) by simp
  next
    case (Created r0 s k0)
    from Cons.prems(1) [unfolded Created(4)] obtain m where "k' = k0" "r0 = Some m" by auto
    then show ?thesis using step [of "Folder part (DefaultItemType f) []" m s k0] Created(3)
      by simp
  next
    case Abandoned
    then show ?thesis using Cons.prems(1) by simp
  qed
qed

subsection \<open>split and join\<close>

lemma split_on_ne: "split_on sep s \<noteq> []"
  by (induction s) auto

lemma foldl_join:
  "foldl (\<lambda>a p. a @ ustr ''/'' @ p) rp parts = rp @ concat (map (\<lambda>p. 47 # p) parts)"
  by (induction parts arbitrary: rp) (auto simp: ustr_def)

lemma split_join:
  "hd (split_on 47 s) @ concat (map (\<lambda>p. 47 # p) (tl (split_on 47 s))) = s"
proof (induction s)
  case Nil
  then show ?case by simp
next
  case (Cons c cs)
  have ne: "split_on 47 cs \<noteq> []" by (rule split_on_ne)
  show ?case
  proof (cases "c = 47")
    case True
    have "47 # hd (split_on 47 cs) @ concat (map (\<lambda>p. 47 # p) (tl (split_on 47 cs))) = 47 # cs"
      using Cons by simp
    moreover have "concat (map (\<lambda>p. 47 # p) (split_on 47 cs)) =
        47 # hd (split_on 47 cs) @ concat (map (\<lambda>p. 47 # p) (tl (split_on 47 cs)))"
      using ne by (cases "split_on 47 cs") auto
    ultimately show ?thesis using True by simp
  next
    case False
    then show ?thesis using Cons by simp
  qed
qed

lemma split_single: "tl (split_on 47 s) = [] \<longleftrightarrow> 47 \<notin> set s"
  by (induction s) (auto simp: split_on_ne)

lemma find_child_None_iff: "find_child part fs = None \<longleftrightarrow> part \<notin> Name ` set fs"
  by (induction fs) auto

lemma get_or_create_folder_walk:
  "get_or_create_folder db c root p k =
     (case walk db c root (tl (split_on 47 (cached_path db k p)))
             (hd (split_on 47 (cached_path db k p))) k of
        (Some n, root', k') \<Rightarrow> (n, root', k')
      | (None, root', k') \<Rightarrow> (unsorted_or_root root, root', k'))"
proof -
  obtain a as where "split_on 47 (cached_path db k p) = a # as"
    using split_on_ne [of 47 "cached_path db k p"] by (cases "split_on 47 (cached_path db k p)") auto
  then show ?thesis by (simp add: get_or_create_folder_def Let_def)
qed

lemma cached_path_key:
  "cache_consistent db k \<Longrightarrow> normalize_name db (cached_path db k p) = normalize_name db p"
  by (auto simp: cache_consistent_def cached_path_def Let_def split: option.splits)

lemma cached_path_hit: "k (normalize_name db p) = Some v \<Longrightarrow> cached_path db k p = v"
  by (simp add: cached_path_def)

lemma cached_path_same_key:
  "normalize_name db p = normalize_name db q \<Longrightarrow> k (normalize_name db p) \<noteq> None \<Longrightarrow>
   cached_path db k q = cached_path db k p"
  by (auto simp: cached_path_def)


lemma walked_path:
  "foldl (\<lambda>a p. a @ ustr ''/'' @ p) (hd (split_on 47 s)) (tl (split_on 47 s)) = s"
  by (simp add: foldl_join split_join)

text \<open>What a resolution with creation allowed leaves behind.\<close>

lemma resolve_create:
  assumes cc: "cache_consistent db k"
    and g: "get_or_create_folder db True root p k = (n, root', k')"
  shows "descend root' (tl (split_on 47 (cached_path db k p))) = Some n"
    and "47 \<in> set (cached_path db k p) \<Longrightarrow> k' (normalize_name db p) = Some (cached_path db k p)"
    and "47 \<notin> set (cached_path db k p) \<Longrightarrow> n = [] \<and> root' = root \<and> k' = k"
proof -
  let ?P = "cached_path db k p"
  obtain r s k0 where w: "walk db True root (tl (split_on 47 ?P)) (hd (split_on 47 ?P)) k = (r, s, k0)"
    by (cases "walk db True root (tl (split_on 47 ?P)) (hd (split_on 47 ?P)) k") blast
  from walk_create_descend [OF w] obtain m where m: "r = Some m" "descend s (tl (split_on 47 ?P)) = Some m"
    by blast
  from g have "(m, s, k0) = (n, root', k')"
    unfolding get_or_create_folder_walk w m(1) by simp
  then have eq: "m = n" "s = root'" "k0 = k'" by simp_all
  show "descend root' (tl (split_on 47 ?P)) = Some n" using m(2) eq by simp
  show "k' (normalize_name db p) = Some ?P" if "47 \<in> set ?P"
  proof -
    have "tl (split_on 47 ?P) \<noteq> []" using that split_single by blast
    from walk_last_entry [OF w [unfolded m(1)] this]
    have "k0 (normalize_name db ?P) = Some ?P" unfolding walked_path .
    then show ?thesis using cached_path_key [OF cc] eq by simp
  qed
  show "n = [] \<and> root' = root \<and> k' = k" if "47 \<notin> set ?P"
  proof -
    have "tl (split_on 47 ?P) = []" using that split_single by blast
    then show ?thesis using w eq m(1) by auto
  qed
qed

lemma resolve_existing:
  assumes "descend root (tl (split_on 47 (cached_path db k p))) = Some n"
  shows "\<exists>k'. get_or_create_folder db c root p k = (n, root, k')"
proof -
  from descend_walk [OF assms, of db c "hd (split_on 47 (cached_path db k p))" k]
  obtain k' where "walk db c root (tl (split_on 47 (cached_path db k p)))
      (hd (split_on 47 (cached_path db k p))) k = (Some n, root, k')" by blast
  then show ?thesis unfolding get_or_create_folder_walk by simp
qed


lemma resolve_cache:
  obtains r s where
    "walk db c root (tl (split_on 47 (cached_path db k p))) (hd (split_on 47 (cached_path db k p))) k =
       (r, s, snd (snd (get_or_create_folder db c root p k)))"
proof -
  let ?P = "cached_path db k p"
  obtain r s k0 where w: "walk db c root (tl (split_on 47 ?P)) (hd (split_on 47 ?P)) k = (r, s, k0)"
    by (cases "walk db c root (tl (split_on 47 ?P)) (hd (split_on 47 ?P)) k") blast
  have "snd (snd (get_or_create_folder db c root p k)) = k0"
    unfolding get_or_create_folder_walk w by (cases r) simp_all
  with w that show ?thesis by simp
qed

lemma resolve_consistent:
  assumes "cache_consistent db k"
  shows "cache_consistent db (snd (snd (get_or_create_folder db c root p k)))"
proof -
  obtain r s where "walk db c root (tl (split_on 47 (cached_path db k p)))
      (hd (split_on 47 (cached_path db k p))) k =
       (r, s, snd (snd (get_or_create_folder db c root p k)))"
    by (rule resolve_cache)
  from walk_consistent [OF assms this] show ?thesis .
qed

lemma resolve_dom: "dom k \<subseteq> dom (snd (snd (get_or_create_folder db c root p k)))"
proof -
  obtain r s where "walk db c root (tl (split_on 47 (cached_path db k p)))
      (hd (split_on 47 (cached_path db k p))) k =
       (r, s, snd (snd (get_or_create_folder db c root p k)))"
    by (rule resolve_cache)
  from walk_dom [OF this] show ?thesis .
qed

lemma build_consistent:
  "cache_consistent db k \<Longrightarrow> cache_consistent db (build_folder_cache db root base k)"
  by (simp add: build_is_record record_paths_consistent)

text \<open>Every cache that a run can hold is consistent.\<close>

lemma reachable_consistent: "reachable_cache db k \<Longrightarrow> cache_consistent db k"
proof (induction rule: reachable_cache.induct)
  case start
  show ?case by (simp add: cache_consistent_def)
next
  case (rebuild known_folders root_folder base)
  then show ?case by (simp add: build_consistent)
next
  case (resolve known_folders CREATE_NEW_FOLDERS root_folder folder_path)
  then show ?case by (simp add: resolve_consistent)
qed


lemma resolve_twice_consistent:
  assumes "cache_consistent db known_folders"
    and "get_or_create_folder db True root_folder folder_path known_folders = (folder, root1, known1)"
  shows "\<exists>known2. get_or_create_folder db True root1 folder_path known1 = (folder, root1, known2)"
proof -
  let ?P = "cached_path db known_folders folder_path"
  note r = resolve_create [OF assms]
  have "cached_path db known1 folder_path = ?P"
  proof (cases "47 \<in> set ?P")
    case True
    from r(2) [OF True] show ?thesis by (simp add: cached_path_hit)
  next
    case False
    from r(3) [OF False] show ?thesis by simp
  qed
  then have "descend root1 (tl (split_on 47 (cached_path db known1 folder_path))) = Some folder"
    using r(1) by simp
  then show ?thesis by (rule resolve_existing)
qed

text \<open>
  Claim C4. Resolving the same path twice with creation allowed, from a cache that a run can
  hold:
  the second call returns the folder that the first call returned, and the tree after it
  is the tree before it, so it creates no folder.
\<close>

theorem resolve_twice_creates_nothing:
  assumes "reachable_cache db known_folders"
    and "get_or_create_folder db True root_folder folder_path known_folders = (folder, root1, known1)"
  shows "\<exists>known2. get_or_create_folder db True root1 folder_path known1 = (folder, root1, known2)"
  using resolve_twice_consistent [OF reachable_consistent [OF assms(1)] assms(2)] .

text \<open>
  Claim C5. With creation disallowed the tree is returned as it was, for every path and
  tree. If the walk over the segments after the first (of the cached path where the cache
  has one, of the path itself otherwise) comes to a segment that no subfolder is exactly
  named after, the folder returned is the first subfolder of the root named
  \<^verbatim>\<open>Unsorted\<close> when the root has one, and the root itself (the position \<open>[]\<close>) when it
  has none.
\<close>

theorem no_create_falls_back:
  "fst (snd (get_or_create_folder db False root_folder folder_path known_folders)) = root_folder \<and>
   (descend root_folder (drop 1 (split_on 47 (cached_path db known_folders folder_path))) = None \<longrightarrow>
      fst (get_or_create_folder db False root_folder folder_path known_folders) =
        unsorted_or_root root_folder) \<and>
   (ustr ''Unsorted'' \<in> Name ` set (Folders root_folder) \<longrightarrow>
      (\<exists>i<length (Folders root_folder). unsorted_or_root root_folder = [i] \<and>
          Name (Folders root_folder ! i) = ustr ''Unsorted'')) \<and>
   (ustr ''Unsorted'' \<notin> Name ` set (Folders root_folder) \<longrightarrow> unsorted_or_root root_folder = [])"
proof -
  let ?P = "cached_path db known_folders folder_path"
  obtain r s k0 where w: "walk db False root_folder (tl (split_on 47 ?P)) (hd (split_on 47 ?P))
      known_folders = (r, s, k0)"
    by (cases "walk db False root_folder (tl (split_on 47 ?P)) (hd (split_on 47 ?P)) known_folders")
      blast
  from walk_no_create [OF w] have s: "s = root_folder" "r = descend root_folder (tl (split_on 47 ?P))"
    by simp_all
  have 1: "fst (snd (get_or_create_folder db False root_folder folder_path known_folders)) = root_folder"
    unfolding get_or_create_folder_walk w using s(1) by (cases r) simp_all
  have 2: "fst (get_or_create_folder db False root_folder folder_path known_folders) =
        unsorted_or_root root_folder"
    if "descend root_folder (drop 1 (split_on 47 ?P)) = None"
  proof -
    have "r = None" using that s(2) by (simp add: drop_Suc)
    then show ?thesis unfolding get_or_create_folder_walk w by simp
  qed
  have 3: "\<exists>i<length (Folders root_folder). unsorted_or_root root_folder = [i] \<and>
          Name (Folders root_folder ! i) = ustr ''Unsorted''"
    if "ustr ''Unsorted'' \<in> Name ` set (Folders root_folder)"
  proof -
    from that obtain i where i: "find_child (ustr ''Unsorted'') (Folders root_folder) = Some i"
      using find_child_None_iff [of "ustr ''Unsorted''" "Folders root_folder"] by auto
    from find_child_Some [OF i] i show ?thesis by (simp add: unsorted_or_root_def)
  qed
  have 4: "unsorted_or_root root_folder = []"
    if "ustr ''Unsorted'' \<notin> Name ` set (Folders root_folder)"
    using that find_child_None_iff [of "ustr ''Unsorted''" "Folders root_folder"]
    by (simp add: unsorted_or_root_def)
  show ?thesis using 1 2 3 4 by blast
qed

text \<open>
  Claim C10. The empty cache is consistent (every key is the normalized form of its
  value); the rebuild traversal and the resolver, which are the two operations that write
  entries, both return a consistent cache when they are given one; so every cache that a
  run can hold is consistent; and neither operation removes a key: every key of the cache
  before is a key of the cache after.
\<close>

theorem cache_consistent_preserved:
  "cache_consistent db Map.empty \<and>
   (cache_consistent db known_folders \<longrightarrow>
      cache_consistent db (build_folder_cache db root_folder base known_folders) \<and>
      cache_consistent db
        (snd (snd (get_or_create_folder db c root_folder folder_path known_folders)))) \<and>
   (reachable_cache db known_folders \<longrightarrow> cache_consistent db known_folders) \<and>
   dom known_folders \<subseteq> dom (build_folder_cache db root_folder base known_folders) \<and>
   dom known_folders \<subseteq>
     dom (snd (snd (get_or_create_folder db c root_folder folder_path known_folders)))"
proof -
  have 1: "cache_consistent db Map.empty" by (simp add: cache_consistent_def)
  have 4: "dom known_folders \<subseteq> dom (build_folder_cache db root_folder base known_folders)"
    by (simp add: build_is_record record_paths_dom)
  show ?thesis
    using 1 4 build_consistent resolve_consistent reachable_consistent resolve_dom by blast
qed

text \<open>
  Claim C6, as the code has it. \<open>folder_paths\<close> lists the real paths of the folders below
  the root in the order in which the traversal enters them. After the rebuild traversal,
  for every folder below the root (the root itself is not entered), looking up the
  folder's own canonical key succeeds and returns the last real path of that list that has
  this canonical key: the entry that the traversal wrote last. This is the real path of a
  folder below the root, and it is the folder's own real path whenever no folder below
  the root has another real path with the same canonical key.
\<close>

theorem build_folder_cache_lookup:
  assumes "n \<noteq> []" and "node_path root_folder base n = Some p"
  shows "p \<in> set (folder_paths root_folder base) \<and>
         build_folder_cache db root_folder base known_folders (normalize_name db p) =
           Some (last (filter (\<lambda>q. normalize_name db q = normalize_name db p)
                         (folder_paths root_folder base))) \<and>
         (\<exists>m v. m \<noteq> [] \<and> node_path root_folder base m = Some v \<and>
            normalize_name db v = normalize_name db p \<and>
            build_folder_cache db root_folder base known_folders (normalize_name db p) = Some v) \<and>
         ((\<forall>m q. m \<noteq> [] \<longrightarrow> node_path root_folder base m = Some q \<longrightarrow>
              normalize_name db q = normalize_name db p \<longrightarrow> q = p) \<longrightarrow>
          build_folder_cache db root_folder base known_folders (normalize_name db p) = Some p)"
proof -
  have p: "p \<in> set (folder_paths root_folder base)"
    using assms unfolding paths_of_nodes by blast
  have l: "build_folder_cache db root_folder base known_folders (normalize_name db p) =
           Some (last (filter (\<lambda>q. normalize_name db q = normalize_name db p)
                         (folder_paths root_folder base)))"
    unfolding build_is_record by (rule record_paths_last [OF p])
  from record_paths_lookup [OF p, of db known_folders]
  obtain v where v: "v \<in> set (folder_paths root_folder base)"
    "normalize_name db v = normalize_name db p"
    "build_folder_cache db root_folder base known_folders (normalize_name db p) = Some v"
    unfolding build_is_record by blast
  from v(1) obtain m where m: "m \<noteq> []" "node_path root_folder base m = Some v"
    unfolding paths_of_nodes by blast
  have e: "\<exists>m v. m \<noteq> [] \<and> node_path root_folder base m = Some v \<and>
            normalize_name db v = normalize_name db p \<and>
            build_folder_cache db root_folder base known_folders (normalize_name db p) = Some v"
    using v m by blast
  have u: "build_folder_cache db root_folder base known_folders (normalize_name db p) = Some p"
    if "\<forall>m q. m \<noteq> [] \<longrightarrow> node_path root_folder base m = Some q \<longrightarrow>
              normalize_name db q = normalize_name db p \<longrightarrow> q = p"
    using that v m by metis
  show ?thesis using p l e u by blast
qed

section \<open>The resolver and the cache on concrete trees\<close>

lemma cache_consistent_empty: "cache_consistent db Map.empty"
  by (simp add: cache_consistent_def)

lemma split_on_step:
  "split_on sep (c # cs) =
     (case split_on sep cs of [] \<Rightarrow> [] | p # ps \<Rightarrow> if c = sep then [] # p # ps else (c # p) # ps)"
  using split_on_ne [of sep cs] by (cases "split_on sep cs") auto





lemma key_a_b:
  "normalize_name ucd_excerpt (ustr ''Postvak In/A'') = ustr ''postvak in/a''"
  "normalize_name ucd_excerpt (ustr ''Postvak In/A/B'') = ustr ''postvak in/a/b''"
  by (simp_all add: normalizer_eval)

lemma resolve_a_b:
  "get_or_create_folder ucd_excerpt True empty_inbox (ustr ''Postvak In/A/B'') Map.empty =
     ([0, 0], Folder (ustr ''Postvak In'') 0 [Folder (ustr ''A'') 0 [Folder (ustr ''B'') 0 []]],
      [ustr ''postvak in/a'' \<mapsto> ustr ''Postvak In/A'',
       ustr ''postvak in/a/b'' \<mapsto> ustr ''Postvak In/A/B''])"
proof -
  have c: "cached_path ucd_excerpt Map.empty (ustr ''Postvak In/A/B'') = ustr ''Postvak In/A/B''"
    by (simp add: cached_path_def)
  have s: "split_on 47 (ustr ''Postvak In/A/B'') = [ustr ''Postvak In'', ustr ''A'', ustr ''B'']"
    by (simp add: ustr_def split_on_step del: split_on.simps(2))
  have p: "ustr ''Postvak In'' @ ustr ''/'' @ ustr ''A'' = ustr ''Postvak In/A''"
    "ustr ''Postvak In/A'' @ ustr ''/'' @ ustr ''B'' = ustr ''Postvak In/A/B''"
    by (simp_all add: ustr_def)
  have w: "walk ucd_excerpt True empty_inbox [ustr ''A'', ustr ''B''] (ustr ''Postvak In'') Map.empty =
     (Some [0, 0],
      Folder (ustr ''Postvak In'') 0 [Folder (ustr ''A'') 0 [Folder (ustr ''B'') 0 []]],
      [ustr ''postvak in/a'' \<mapsto> ustr ''Postvak In/A'',
       ustr ''postvak in/a/b'' \<mapsto> ustr ''Postvak In/A/B''])"
    by (simp add: empty_inbox_def p key_a_b)
  show ?thesis
    unfolding get_or_create_folder_walk c s list.sel w by simp
qed

text \<open>The theorem of claim C4 at the path \<^verbatim>\<open>Postvak In/A/B\<close> on an inbox with no
  subfolder.\<close>

theorem resolve_twice_creates_nothing_witness:
  "reachable_cache ucd_excerpt Map.empty \<and>
   get_or_create_folder ucd_excerpt True empty_inbox (ustr ''Postvak In/A/B'') Map.empty =
     ([0, 0], Folder (ustr ''Postvak In'') 0 [Folder (ustr ''A'') 0 [Folder (ustr ''B'') 0 []]],
      [ustr ''postvak in/a'' \<mapsto> ustr ''Postvak In/A'',
       ustr ''postvak in/a/b'' \<mapsto> ustr ''Postvak In/A/B'']) \<and>
   (\<exists>known2. get_or_create_folder ucd_excerpt True
       (Folder (ustr ''Postvak In'') 0 [Folder (ustr ''A'') 0 [Folder (ustr ''B'') 0 []]])
       (ustr ''Postvak In/A/B'')
       [ustr ''postvak in/a'' \<mapsto> ustr ''Postvak In/A'',
        ustr ''postvak in/a/b'' \<mapsto> ustr ''Postvak In/A/B''] =
     ([0, 0], Folder (ustr ''Postvak In'') 0 [Folder (ustr ''A'') 0 [Folder (ustr ''B'') 0 []]],
      known2))"
  using resolve_twice_creates_nothing [OF reachable_cache.start resolve_a_b]
    resolve_a_b reachable_cache.start [of ucd_excerpt]
  by blast

lemma descend_new_category:
  "descend inbox (drop 1 (split_on 47
      (cached_path ucd_excerpt Map.empty (ustr ''Postvak In/NewCategory'')))) = None"
proof -
  have c: "cached_path ucd_excerpt Map.empty (ustr ''Postvak In/NewCategory'') =
      ustr ''Postvak In/NewCategory''"
    by (simp add: cached_path_def)
  have s: "split_on 47 (ustr ''Postvak In/NewCategory'') = [ustr ''Postvak In'', ustr ''NewCategory'']"
    by (simp add: ustr_def split_on_step del: split_on.simps(2))
  show ?thesis unfolding c s by (simp add: inbox_def ustr_def)
qed

text \<open>The theorem of claim C5 at the spec's scenario: \<^verbatim>\<open>NewCategory\<close> does not exist,
  and the folder returned is the subfolder \<^verbatim>\<open>Unsorted\<close> at index 1.\<close>

theorem no_create_falls_back_witness:
  "descend inbox (drop 1 (split_on 47
      (cached_path ucd_excerpt Map.empty (ustr ''Postvak In/NewCategory'')))) = None \<and>
   ustr ''Unsorted'' \<in> Name ` set (Folders inbox) \<and>
   unsorted_or_root inbox = [1] \<and>
   fst (get_or_create_folder ucd_excerpt False inbox (ustr ''Postvak In/NewCategory'') Map.empty) = [1] \<and>
   fst (snd (get_or_create_folder ucd_excerpt False inbox (ustr ''Postvak In/NewCategory'')
      Map.empty)) = inbox"
proof -
  have b: "ustr ''Unsorted'' \<in> Name ` set (Folders inbox)" by (simp add: inbox_def)
  have c: "unsorted_or_root inbox = [1]" by (simp add: unsorted_or_root_def inbox_def ustr_def)
  from no_create_falls_back [where db = ucd_excerpt and root_folder = inbox
      and folder_path = "ustr ''Postvak In/NewCategory''" and known_folders = Map.empty]
    descend_new_category b c show ?thesis by simp
qed

lemma inbox_paths:
  "folder_paths inbox (ustr ''Postvak In'') = [ustr ''Postvak In/Work'', ustr ''Postvak In/Unsorted'']"
  by (simp add: inbox_def ustr_def)

lemma key_inbox:
  "normalize_name ucd_excerpt (ustr ''Postvak In/Work'') = ustr ''postvak in/work''"
  "normalize_name ucd_excerpt (ustr ''Postvak In/Unsorted'') = ustr ''postvak in/unsorted''"
  by (simp_all add: normalizer_eval)

lemma build_inbox:
  "build_folder_cache ucd_excerpt inbox (ustr ''Postvak In'') Map.empty =
     [ustr ''postvak in/work'' \<mapsto> ustr ''Postvak In/Work'',
      ustr ''postvak in/unsorted'' \<mapsto> ustr ''Postvak In/Unsorted'']"
  unfolding build_is_record inbox_paths by (simp add: record_paths_def key_inbox)

text \<open>The theorem of claim C10 at the cache rebuilt from the inbox with two subfolders
  and at a resolution from that cache.\<close>

theorem cache_consistent_preserved_witness:
  "cache_consistent ucd_excerpt Map.empty \<and>
   build_folder_cache ucd_excerpt inbox (ustr ''Postvak In'') Map.empty =
     [ustr ''postvak in/work'' \<mapsto> ustr ''Postvak In/Work'',
      ustr ''postvak in/unsorted'' \<mapsto> ustr ''Postvak In/Unsorted''] \<and>
   cache_consistent ucd_excerpt
     [ustr ''postvak in/work'' \<mapsto> ustr ''Postvak In/Work'',
      ustr ''postvak in/unsorted'' \<mapsto> ustr ''Postvak In/Unsorted''] \<and>
   cache_consistent ucd_excerpt
     (snd (snd (get_or_create_folder ucd_excerpt True inbox (ustr ''Postvak In/Orders'')
        [ustr ''postvak in/work'' \<mapsto> ustr ''Postvak In/Work'',
         ustr ''postvak in/unsorted'' \<mapsto> ustr ''Postvak In/Unsorted''])))"
proof -
  from cache_consistent_preserved [where db = ucd_excerpt and known_folders = Map.empty
      and root_folder = inbox and base = "ustr ''Postvak In''"]
  have b: "cache_consistent ucd_excerpt
     [ustr ''postvak in/work'' \<mapsto> ustr ''Postvak In/Work'',
      ustr ''postvak in/unsorted'' \<mapsto> ustr ''Postvak In/Unsorted'']"
    unfolding build_inbox by blast
  from cache_consistent_preserved [where db = ucd_excerpt
      and known_folders = "[ustr ''postvak in/work'' \<mapsto> ustr ''Postvak In/Work'',
         ustr ''postvak in/unsorted'' \<mapsto> ustr ''Postvak In/Unsorted'']"
      and c = True and root_folder = inbox and folder_path = "ustr ''Postvak In/Orders''"] b
  have c: "cache_consistent ucd_excerpt
     (snd (snd (get_or_create_folder ucd_excerpt True inbox (ustr ''Postvak In/Orders'')
        [ustr ''postvak in/work'' \<mapsto> ustr ''Postvak In/Work'',
         ustr ''postvak in/unsorted'' \<mapsto> ustr ''Postvak In/Unsorted''])))" by blast
  show ?thesis using b c build_inbox cache_consistent_empty by blast
qed

text \<open>The theorem of claim C6 at the subfolder \<^verbatim>\<open>Work\<close>, whose key no other folder
  has.\<close>

theorem build_folder_cache_lookup_witness:
  "[0] \<noteq> [] \<and> node_path inbox (ustr ''Postvak In'') [0] = Some (ustr ''Postvak In/Work'') \<and>
   build_folder_cache ucd_excerpt inbox (ustr ''Postvak In'') Map.empty
     (normalize_name ucd_excerpt (ustr ''Postvak In/Work'')) = Some (ustr ''Postvak In/Work'')"
proof -
  have a: "[0::nat] \<noteq> []" by simp
  have b: "node_path inbox (ustr ''Postvak In'') [0] = Some (ustr ''Postvak In/Work'')"
    by (simp add: inbox_def ustr_def)
  have u: "\<forall>m q. m \<noteq> [] \<longrightarrow> node_path inbox (ustr ''Postvak In'') m = Some q \<longrightarrow>
      normalize_name ucd_excerpt q = normalize_name ucd_excerpt (ustr ''Postvak In/Work'') \<longrightarrow>
      q = ustr ''Postvak In/Work''"
  proof (intro allI impI)
    fix m q
    assume "m \<noteq> []" "node_path inbox (ustr ''Postvak In'') m = Some q"
      and k: "normalize_name ucd_excerpt q = normalize_name ucd_excerpt (ustr ''Postvak In/Work'')"
    then have "q \<in> set (folder_paths inbox (ustr ''Postvak In''))"
      unfolding paths_of_nodes by blast
    then have "q = ustr ''Postvak In/Work'' \<or> q = ustr ''Postvak In/Unsorted''"
      unfolding inbox_paths by simp
    moreover have "normalize_name ucd_excerpt (ustr ''Postvak In/Unsorted'') \<noteq>
        normalize_name ucd_excerpt (ustr ''Postvak In/Work'')"
      unfolding key_inbox by (simp add: ustr_def)
    ultimately show "q = ustr ''Postvak In/Work''" using k by auto
  qed
  from build_folder_cache_lookup [OF a b, where db = ucd_excerpt and known_folders = Map.empty] u a b
  show ?thesis by blast
qed

lemma cafes_paths:
  "folder_paths cafes (ustr ''Postvak In'') =
     [ustr ''Postvak In/Cafe'', ustr ''Postvak In/Caf'' @ [0xE9]]"
  by (simp add: cafes_def ustr_def)

lemma key_cafes:
  "normalize_name ucd_excerpt (ustr ''Postvak In/Cafe'') = ustr ''postvak in/cafe''"
  "normalize_name ucd_excerpt (ustr ''Postvak In/Caf'' @ [0xE9]) = ustr ''postvak in/cafe''"
  by (simp_all add: normalizer_eval)

text \<open>Claim C6 as stated fails: of two subfolders \<^verbatim>\<open>Cafe\<close> and \<^verbatim>\<open>Caf<U+00E9>\<close>
  the traversal enters the second one last, and the look-up by the key of the first
  returns the real path of the second.\<close>

theorem build_folder_cache_accent_counterexample:
  "node_path cafes (ustr ''Postvak In'') [0] = Some (ustr ''Postvak In/Cafe'') \<and>
   build_folder_cache ucd_excerpt cafes (ustr ''Postvak In'') Map.empty
     (normalize_name ucd_excerpt (ustr ''Postvak In/Cafe'')) = Some (ustr ''Postvak In/Caf'' @ [0xE9]) \<and>
   ustr ''Postvak In/Caf'' @ [0xE9] \<noteq> ustr ''Postvak In/Cafe''"
proof -
  have "node_path cafes (ustr ''Postvak In'') [0] = Some (ustr ''Postvak In/Cafe'')"
    by (simp add: cafes_def ustr_def)
  moreover have "build_folder_cache ucd_excerpt cafes (ustr ''Postvak In'') Map.empty
     (normalize_name ucd_excerpt (ustr ''Postvak In/Cafe'')) = Some (ustr ''Postvak In/Caf'' @ [0xE9])"
    unfolding build_is_record cafes_paths by (simp add: record_paths_def key_cafes)
  moreover have "ustr ''Postvak In/Caf'' @ [0xE9] \<noteq> ustr ''Postvak In/Cafe''"
    by (simp add: ustr_def)
  ultimately show ?thesis by blast
qed

end
